theory Spec2Isabelle
  imports Main "HOL-Library.Word"
begin

section \<open>The VLC object tree of src/misc/objects.c\<close>

text \<open>
  The embedding follows one thread through the functions of \<^verbatim>\<open>objects.c\<close>. The heap
  maps the address of an object to its private header (\<^verbatim>\<open>vlc_object_internals_t\<close>)
  together with the common members of \<^verbatim>\<open>vlc_object_t\<close>; a freed block has no entry.
  The two file-level statics \<^verbatim>\<open>tree_lock\<close> and \<^verbatim>\<open>tree_list\<close> are fields of the
  state. Every call that leaves the file (the mutex, the variable store, the logger,
  the teardown hook, \<^verbatim>\<open>free\<close>) and every atomic access to a reference count is
  appended to a trace, so that the order of the steps of a function can be stated.

  Assertions are enabled: a failing \<^verbatim>\<open>assert\<close> ends the call with
  \<open>AssertionFailed\<close>. Reading through a pointer to a freed block, or unlinking a list
  node that was never linked, is undefined in C and ends the call with
  \<open>InvalidPointer\<close>. Taking \<^verbatim>\<open>tree_lock\<close> while the thread already holds it never
  returns and is the result \<open>Deadlock\<close>. No other thread runs during a call, so an
  atomic read-modify-write is a plain one and the weak compare-and-swap of the fast
  path succeeds on its first attempt; memory orders and fences have no counterpart.

  Embedded are \<^verbatim>\<open>ObjectHasChildLocked\<close>, \<^verbatim>\<open>ObjectHasChild\<close>, \<^verbatim>\<open>ObjectExists\<close>,
  \<^verbatim>\<open>VarsCommand\<close>, \<^verbatim>\<open>vlc_custom_create\<close>, \<^verbatim>\<open>vlc_object_create\<close>,
  \<^verbatim>\<open>vlc_object_set_destructor\<close>, \<^verbatim>\<open>vlc_object_typename\<close>, \<^verbatim>\<open>vlc_object_parent\<close>,
  \<^verbatim>\<open>vlc_object_destroy\<close>, \<^verbatim>\<open>vlc_object_hold\<close>, \<^verbatim>\<open>vlc_object_release\<close> and
  \<^verbatim>\<open>vlc_list_children\<close>. The printing of the tree (\<^verbatim>\<open>TreeCommand\<close> and the functions
  under it) and the logging functions change neither the objects nor the collection
  and are left out; \<^verbatim>\<open>TreeCommand\<close> appears only as the callback that is registered.
\<close>

subsection \<open>Data\<close>

type_synonym addr = nat

text \<open>A C pointer that may be \<^verbatim>\<open>NULL\<close>: \<open>None\<close> is \<^verbatim>\<open>NULL\<close>.\<close>

type_synonym pointer = "addr option"

text \<open>
  The header and the common members of one object. \<open>refs\<close> is the \<^verbatim>\<open>unsigned\<close>
  atomic counter, \<open>pf_destructor\<close> names the teardown hook, \<open>resources\<close> is the
  head of the attached resources, \<open>payload\<close> the type-specific bytes after the common
  members. The variable store of the object (\<^verbatim>\<open>var_root\<close>, \<^verbatim>\<open>var_lock\<close>,
  \<^verbatim>\<open>var_wait\<close>) is kept by code outside the file and shows in the trace only; the list
  node of the object is its place in \<open>tree_list\<close>.
\<close>

record vlc_object_internals =
  typename :: "string option"
  refs :: "32 word"
  pf_destructor :: "nat option"
  resources :: "nat option"
  parent :: pointer
  logger :: nat
  no_interact :: bool
  force :: bool
  payload :: "8 word list"

datatype callback = CbTreeCommand | CbVarsCommand

datatype var_flag = VLC_VAR_STRING | VLC_VAR_ISCOMMAND

datatype event =
    MutexLock
  | MutexUnlock
  | ListAppend addr
  | ListRemove addr
  | FetchAdd addr
  | FetchSub addr
  | CompareExchange addr
  | SaveCancel
  | RestoreCancel
  | MutexInit addr
  | CondInit addr
  | CondDestroy addr
  | MutexDestroy addr
  | CallDestructor nat addr
  | VarCreate addr string "var_flag list"
  | VarAddCallback addr string callback
  | VarDelCallback addr string callback
  | VarDestroyAll addr
  | Free addr
  | MsgErr addr string
  | PrintVarsHeader addr "string option" pointer
  | DumpVariables addr

datatype error = AssertionFailed | InvalidPointer | Deadlock

datatype status = VLC_SUCCESS | VLC_ENOOBJ

record state =
  heap :: "addr \<Rightarrow> vlc_object_internals option"
  tree_list :: "addr list"
  tree_lock :: bool
  trace :: "event list"

subsection \<open>Services outside the file\<close>

text \<open>
  Modelled from the spec: the variable store (\<^verbatim>\<open>var_Create\<close>, \<^verbatim>\<open>var_AddCallback\<close>,
  \<^verbatim>\<open>var_DelCallback\<close>, \<^verbatim>\<open>var_DestroyAll\<close>, \<^verbatim>\<open>DumpVariables\<close>), the logger
  (\<^verbatim>\<open>msg_Err\<close>), the cancellation calls, the primitives of the variable lock and
  condition, the teardown hook and \<^verbatim>\<open>free\<close> are services outside the two files at
  hand. A call of one of them is an event with the arguments of the call, added to
  the trace; it changes nothing else of the state.
\<close>

definition emit :: "event \<Rightarrow> state \<Rightarrow> state" where
  "emit e s = s\<lparr>trace := trace s @ [e]\<rparr>"

text \<open>
  Modelled from the spec: \<^verbatim>\<open>vlc_mutex_lock\<close>, \<^verbatim>\<open>vlc_mutex_unlock\<close> and
  \<^verbatim>\<open>vlc_mutex_assert\<close> on \<^verbatim>\<open>tree_lock\<close> (the structural lock) are declared outside
  the two files at hand. The lock is a plain mutex: one holder, not recursive.
\<close>

definition vlc_mutex_lock :: "state \<Rightarrow> error + state" where
  "vlc_mutex_lock s =
     (if tree_lock s then Inl Deadlock else Inr (emit MutexLock (s\<lparr>tree_lock := True\<rparr>)))"

definition vlc_mutex_unlock :: "state \<Rightarrow> state" where
  "vlc_mutex_unlock s = emit MutexUnlock (s\<lparr>tree_lock := False\<rparr>)"

text \<open>
  Modelled from the spec: \<^verbatim>\<open>vlc_list_append\<close>, \<^verbatim>\<open>vlc_list_remove\<close> and
  \<^verbatim>\<open>vlc_list_foreach\<close> (the global collection is an intrusive list whose nodes live
  inside the objects) are declared outside the two files at hand. Appending puts the
  entry last, and a walk visits the entries from the first to the last. A node is
  linked by \<^verbatim>\<open>vlc_list_append\<close> only, so unlinking an object that is not in the list
  reads pointers nobody wrote.
\<close>

definition vlc_list_append :: "addr \<Rightarrow> state \<Rightarrow> state" where
  "vlc_list_append p s = emit (ListAppend p) (s\<lparr>tree_list := tree_list s @ [p]\<rparr>)"

definition vlc_list_remove :: "addr \<Rightarrow> state \<Rightarrow> error + state" where
  "vlc_list_remove p s =
     (if p \<in> set (tree_list s)
      then Inr (emit (ListRemove p) (s\<lparr>tree_list := remove1 p (tree_list s)\<rparr>))
      else Inl InvalidPointer)"

text \<open>The atomic counter: a store into the header of a live object.\<close>

definition set_refs :: "addr \<Rightarrow> vlc_object_internals \<Rightarrow> 32 word \<Rightarrow> state \<Rightarrow> state" where
  "set_refs p priv r s = s\<lparr>heap := (heap s)(p \<mapsto> priv\<lparr>refs := r\<rparr>)\<rparr>"

subsection \<open>Queries on the collection\<close>

text \<open>
  \<^verbatim>\<open>vlc_children_foreach\<close> walks the whole of \<^verbatim>\<open>tree_list\<close> and keeps the entries
  whose \<^verbatim>\<open>parent\<close> is the given object. \<^verbatim>\<open>ObjectHasChildLocked\<close> returns at the first
  such entry.
\<close>

fun ObjectHasChildLocked_loop ::
  "(addr \<Rightarrow> vlc_object_internals option) \<Rightarrow> addr \<Rightarrow> addr list \<Rightarrow> error + bool" where
  "ObjectHasChildLocked_loop h obj [] = Inr False"
| "ObjectHasChildLocked_loop h obj (pos # rest) =
     (case h pos of
        None \<Rightarrow> Inl InvalidPointer
      | Some priv \<Rightarrow>
          if parent priv = Some obj then Inr True
          else ObjectHasChildLocked_loop h obj rest)"

definition ObjectHasChildLocked :: "addr \<Rightarrow> state \<Rightarrow> error + bool" where
  "ObjectHasChildLocked obj s = ObjectHasChildLocked_loop (heap s) obj (tree_list s)"

definition ObjectHasChild :: "addr \<Rightarrow> state \<Rightarrow> error + (bool \<times> state)" where
  "ObjectHasChild obj s =
     (case vlc_mutex_lock s of
        Inl e \<Rightarrow> Inl e
      | Inr s1 \<Rightarrow>
          (case ObjectHasChildLocked obj s1 of
             Inl e \<Rightarrow> Inl e
           | Inr ret \<Rightarrow> Inr (ret, vlc_mutex_unlock s1)))"

subsection \<open>Accessors\<close>

definition vlc_object_set_destructor :: "addr \<Rightarrow> nat option \<Rightarrow> state \<Rightarrow> error + state" where
  "vlc_object_set_destructor p_this pf s =
     (case heap s p_this of
        None \<Rightarrow> Inl InvalidPointer
      | Some p_priv \<Rightarrow> Inr (s\<lparr>heap := (heap s)(p_this \<mapsto> p_priv\<lparr>pf_destructor := pf\<rparr>)\<rparr>))"

definition vlc_object_typename :: "addr \<Rightarrow> state \<Rightarrow> error + string option" where
  "vlc_object_typename obj s =
     (case heap s obj of None \<Rightarrow> Inl InvalidPointer | Some priv \<Rightarrow> Inr (typename priv))"

definition vlc_object_parent :: "addr \<Rightarrow> state \<Rightarrow> error + pointer" where
  "vlc_object_parent obj s =
     (case heap s obj of None \<Rightarrow> Inl InvalidPointer | Some priv \<Rightarrow> Inr (parent priv))"

subsection \<open>Hold\<close>

text \<open>
  \<^verbatim>\<open>vlc_object_hold\<close>: the fetch-and-add happens first, on the 32-bit unsigned
  counter; the assertion then looks at the value the counter had before.
\<close>

definition vlc_object_hold :: "addr \<Rightarrow> state \<Rightarrow> error + (addr \<times> state)" where
  "vlc_object_hold p_this s =
     (case heap s p_this of
        None \<Rightarrow> Inl InvalidPointer
      | Some internals \<Rightarrow>
          let r = refs internals;
              s1 = emit (FetchAdd p_this) (set_refs p_this internals (r + 1) s)
          in if 0 < r then Inr (p_this, s1) else Inl AssertionFailed)"

subsection \<open>Destruction\<close>

text \<open>
  \<^verbatim>\<open>vlc_object_destroy\<close>, statement by statement. The teardown hook, the variable
  store and the thread primitives are code outside the file: each call is recorded
  with its arguments, and the hook is taken not to touch the objects or the
  collection.
\<close>

definition call_destructor :: "addr \<Rightarrow> vlc_object_internals \<Rightarrow> state \<Rightarrow> state" where
  "call_destructor p_this p_priv s =
     (case pf_destructor p_priv of
        None \<Rightarrow> s
      | Some d \<Rightarrow> emit (CallDestructor d p_this) s)"

definition del_root_callbacks :: "addr \<Rightarrow> vlc_object_internals \<Rightarrow> state \<Rightarrow> state" where
  "del_root_callbacks p_this p_priv s =
     (if parent p_priv = None
      then emit (VarDelCallback p_this ''tree'' CbTreeCommand)
             (emit (VarDelCallback p_this ''vars'' CbVarsCommand) s)
      else s)"

definition free_block :: "addr \<Rightarrow> state \<Rightarrow> state" where
  "free_block p s = emit (Free p) (s\<lparr>heap := (heap s)(p := None)\<rparr>)"

definition vlc_object_destroy :: "addr \<Rightarrow> state \<Rightarrow> error + state" where
  "vlc_object_destroy p_this s =
     (case heap s p_this of
        None \<Rightarrow> Inl InvalidPointer
      | Some p_priv \<Rightarrow>
          if resources p_priv \<noteq> None then Inl AssertionFailed
          else
            let s1 = emit SaveCancel s;
                s2 = call_destructor p_this p_priv s1;
                s3 = del_root_callbacks p_this p_priv s2;
                s4 = emit (VarDestroyAll p_this) s3;
                s5 = emit RestoreCancel s4;
                s6 = emit (CondDestroy p_this) s5;
                s7 = emit (MutexDestroy p_this) s6
            in Inr (free_block p_this s7))"

subsection \<open>Release\<close>

lemma tree_list_emit [simp]: "tree_list (emit e s) = tree_list s"
  by (simp add: emit_def)

lemma tree_list_set_refs [simp]: "tree_list (set_refs p priv r s) = tree_list s"
  by (simp add: set_refs_def)

lemma tree_list_vlc_mutex_unlock [simp]: "tree_list (vlc_mutex_unlock s) = tree_list s"
  by (simp add: vlc_mutex_unlock_def)

lemma vlc_mutex_lock_tree_list:
  "vlc_mutex_lock s = Inr s' \<Longrightarrow> tree_list s' = tree_list s"
  by (auto simp: vlc_mutex_lock_def split: if_splits)

lemma vlc_object_destroy_tree_list:
  "vlc_object_destroy p s = Inr s' \<Longrightarrow> tree_list s' = tree_list s"
  by (auto simp: vlc_object_destroy_def free_block_def call_destructor_def
      del_root_callbacks_def Let_def split: option.splits if_splits)

lemma ObjectHasChild_tree_list:
  "ObjectHasChild p s = Inr (b, s') \<Longrightarrow> tree_list s' = tree_list s"
  by (auto simp: ObjectHasChild_def vlc_mutex_lock_def vlc_mutex_unlock_def
      split: sum.splits if_splits)

lemma vlc_list_remove_length:
  "vlc_list_remove p s = Inr s' \<Longrightarrow> length (tree_list s') < length (tree_list s)"
proof -
  assume "vlc_list_remove p s = Inr s'"
  then have mem: "p \<in> set (tree_list s)" and eq: "tree_list s' = remove1 p (tree_list s)"
    by (auto simp: vlc_list_remove_def split: if_splits)
  from mem have "tree_list s \<noteq> []" by auto
  with mem eq show ?thesis by (simp add: length_remove1)
qed

text \<open>
  \<^verbatim>\<open>vlc_object_release\<close>. The loop of the fast path runs while the count read is
  above 1 and leaves through its \<^verbatim>\<open>return\<close> when the compare-and-swap stores the
  count minus one. Below that the parent is read; a root is decremented without the
  lock and destroyed; any other object is decremented under the lock, unlinked when
  the value before the decrement was 1, and then destroyed before the call releases
  the parent. The recursion ends because each nested call runs on a collection that
  is one entry shorter.
\<close>

function vlc_object_release :: "addr \<Rightarrow> state \<Rightarrow> error + state" where
  "vlc_object_release obj s =
     (case heap s obj of
        None \<Rightarrow> Inl InvalidPointer
      | Some priv \<Rightarrow>
          let r = refs priv in
          if 1 < r then
            Inr (emit (CompareExchange obj) (set_refs obj priv (r - 1) s))
          else
            (case parent priv of
               None \<Rightarrow>
                 let s1 = emit (FetchSub obj) (set_refs obj priv (r - 1) s) in
                 if r \<noteq> 1 then Inl AssertionFailed
                 else
                   (case ObjectHasChild obj s1 of
                      Inl e \<Rightarrow> Inl e
                    | Inr (has_child, s2) \<Rightarrow>
                        if has_child then Inl AssertionFailed
                        else vlc_object_destroy obj s2)
             | Some par \<Rightarrow>
                 (case vlc_mutex_lock s of
                    Inl e \<Rightarrow> Inl e
                  | Inr s1 \<Rightarrow>
                      let s2 = emit (FetchSub obj) (set_refs obj priv (r - 1) s1) in
                      if \<not> 0 < r then Inl AssertionFailed
                      else
                        (case (if r = 1 then vlc_list_remove obj s2 else Inr s2) of
                           Inl e \<Rightarrow> Inl e
                         | Inr s3 \<Rightarrow>
                             let s4 = vlc_mutex_unlock s3 in
                             if r = 1 then
                               (case ObjectHasChild obj s4 of
                                  Inl e \<Rightarrow> Inl e
                                | Inr (has_child, s5) \<Rightarrow>
                                    if has_child then Inl AssertionFailed
                                    else
                                      (case vlc_object_destroy obj s5 of
                                         Inl e \<Rightarrow> Inl e
                                       | Inr s6 \<Rightarrow> vlc_object_release par s6))
                             else Inr s4))))"
  by pat_completeness auto

termination
proof (relation "measure (\<lambda>(obj, s). length (tree_list s))")
  show "wf (measure (\<lambda>(obj, s). length (tree_list s)))" by simp
next
  fix obj s priv r par s1 s2 s3 s4 hc has_child s5 s6
  assume lock: "vlc_mutex_lock s = Inr s1"
    and s2: "s2 = emit (FetchSub obj) (set_refs obj priv (r - 1) s1)"
    and rm: "(if r = 1 then vlc_list_remove obj s2 else Inr s2) = Inr s3"
    and s4: "s4 = vlc_mutex_unlock s3"
    and r: "r = 1"
    and hc: "ObjectHasChild obj s4 = Inr hc" "(has_child, s5) = hc"
    and destroy: "vlc_object_destroy obj s5 = Inr s6"
  from rm r have "length (tree_list s3) < length (tree_list s2)"
    by (simp add: vlc_list_remove_length)
  moreover have "tree_list s2 = tree_list s"
    using lock s2 by (simp add: vlc_mutex_lock_tree_list)
  moreover have "tree_list s6 = tree_list s3"
    using hc destroy s4 ObjectHasChild_tree_list [of obj s4 has_child s5]
    by (simp add: vlc_object_destroy_tree_list)
  ultimately show "((par, s6), obj, s) \<in> measure (\<lambda>(obj, s). length (tree_list s))"
    by simp
qed

declare vlc_object_release.simps [simp del]

subsection \<open>Creation\<close>

text \<open>
  \<^verbatim>\<open>vlc_custom_create\<close>. \<^verbatim>\<open>size_t\<close> is the unsigned type of 64 bits it is on a
  64-bit target, and sums in it wrap. Three things the function uses are not in the
  file and are parameters: \<open>sz\<close> is \<^verbatim>\<open>sizeof (vlc_object_t)\<close>, \<open>hsz\<close> is
  \<^verbatim>\<open>sizeof (*priv)\<close>, the size of the private header, and \<open>malloc\<close> gives for the
  size asked what the allocator returns: \<open>None\<close> when it fails and otherwise the
  address of a block of that size with the indeterminate content it has. Fields the
  function does not write keep that content. The function asks for
  \<^verbatim>\<open>sizeof (*priv) + length\<close> bytes and then writes the header, the common members and
  \<^verbatim>\<open>length - sizeof (*obj)\<close> zero bytes, which are \<^verbatim>\<open>sizeof (*priv)\<close> plus
  \<^verbatim>\<open>length\<close> bytes in all: where the sum wrapped, the block is smaller than the
  header and the writes run past its end.
\<close>

type_synonym size_t = "64 word"

definition write_obj ::
  "addr \<Rightarrow> (vlc_object_internals \<Rightarrow> vlc_object_internals) \<Rightarrow> state \<Rightarrow> state" where
  "write_obj a f s = s\<lparr>heap := (heap s)(a := map_option f (heap s a))\<rparr>"

definition create_root_vars :: "addr \<Rightarrow> state \<Rightarrow> state" where
  "create_root_vars obj s =
     (let s1 = emit SaveCancel s;
          s2 = emit (VarCreate obj ''tree'' [VLC_VAR_STRING, VLC_VAR_ISCOMMAND]) s1;
          s3 = emit (VarAddCallback obj ''tree'' CbTreeCommand) s2;
          s4 = emit (VarCreate obj ''vars'' [VLC_VAR_STRING, VLC_VAR_ISCOMMAND]) s3;
          s5 = emit (VarAddCallback obj ''vars'' CbVarsCommand) s4
      in emit RestoreCancel s5)"

definition vlc_custom_create ::
  "size_t \<Rightarrow> size_t \<Rightarrow> (size_t \<Rightarrow> (addr \<times> vlc_object_internals) option) \<Rightarrow> pointer
     \<Rightarrow> size_t \<Rightarrow> string option \<Rightarrow> state \<Rightarrow> error + (pointer \<times> state)" where
  "vlc_custom_create sz hsz malloc par len tname s =
     (if \<not> sz \<le> len then Inl AssertionFailed
      else
        (case malloc (hsz + len) of
           None \<Rightarrow> Inr (None, s)
         | Some (obj, junk) \<Rightarrow>
             if unat (hsz + len) < unat hsz + unat len then Inl InvalidPointer
             else
             let s1 = emit (CondInit obj) (emit (MutexInit obj)
                        (s\<lparr>heap := (heap s)(obj \<mapsto> junk\<lparr>typename := tname\<rparr>)\<rparr>));
                 s2 = write_obj obj (\<lambda>priv. priv\<lparr>refs := 1, pf_destructor := None,
                        resources := None, force := False,
                        payload := replicate (unat (len - sz)) 0\<rparr>) s1
             in
               (case par of
                  Some p \<Rightarrow>
                    (case heap s2 p of
                       None \<Rightarrow> Inl InvalidPointer
                     | Some ppriv \<Rightarrow>
                         let s3 = write_obj obj (\<lambda>priv. priv\<lparr>logger := logger ppriv,
                                    no_interact := no_interact ppriv\<rparr>) s2
                         in
                           (case vlc_object_hold p s3 of
                              Inl e \<Rightarrow> Inl e
                            | Inr (h, s4) \<Rightarrow>
                                let s5 = write_obj obj (\<lambda>priv. priv\<lparr>parent := Some h\<rparr>) s4
                                in
                                  (case vlc_mutex_lock s5 of
                                     Inl e \<Rightarrow> Inl e
                                   | Inr s6 \<Rightarrow>
                                       Inr (Some obj,
                                            vlc_mutex_unlock (vlc_list_append obj s6)))))
                | None \<Rightarrow>
                    let s3 = write_obj obj (\<lambda>priv. priv\<lparr>no_interact := False,
                               parent := None\<rparr>) s2
                    in Inr (Some obj, create_root_vars obj s3))))"

definition vlc_object_create ::
  "size_t \<Rightarrow> size_t \<Rightarrow> (size_t \<Rightarrow> (addr \<times> vlc_object_internals) option) \<Rightarrow> pointer
     \<Rightarrow> size_t \<Rightarrow> state \<Rightarrow> error + (pointer \<times> state)" where
  "vlc_object_create sz hsz malloc p_this i_size s =
     vlc_custom_create sz hsz malloc p_this i_size (Some ''generic'') s"

subsection \<open>Listing the children\<close>

text \<open>
  \<^verbatim>\<open>vlc_list_children\<close>. \<open>tab\<close> is the caller's table; a store past its end is
  undefined in C. \<open>count\<close> is a \<^verbatim>\<open>size_t\<close> that counts entries of a list held in
  memory, so it does not wrap and is a natural number here.
\<close>

fun vlc_list_children_loop ::
  "addr \<Rightarrow> nat \<Rightarrow> addr list \<Rightarrow> nat \<Rightarrow> addr list \<Rightarrow> state
     \<Rightarrow> error + (nat \<times> addr list \<times> state)" where
  "vlc_list_children_loop obj mx [] count tab s = Inr (count, tab, s)"
| "vlc_list_children_loop obj mx (pos # rest) count tab s =
     (case heap s pos of
        None \<Rightarrow> Inl InvalidPointer
      | Some priv \<Rightarrow>
          if parent priv = Some obj then
            (if count < mx then
               (case vlc_object_hold pos s of
                  Inl e \<Rightarrow> Inl e
                | Inr (h, s1) \<Rightarrow>
                    if count < length tab
                    then vlc_list_children_loop obj mx rest (count + 1) (tab[count := h]) s1
                    else Inl InvalidPointer)
             else vlc_list_children_loop obj mx rest (count + 1) tab s)
          else vlc_list_children_loop obj mx rest count tab s)"

definition vlc_list_children ::
  "addr \<Rightarrow> addr list \<Rightarrow> nat \<Rightarrow> state \<Rightarrow> error + (nat \<times> addr list \<times> state)" where
  "vlc_list_children obj tab mx s =
     (case vlc_mutex_lock s of
        Inl e \<Rightarrow> Inl e
      | Inr s1 \<Rightarrow>
          (case vlc_list_children_loop obj mx (tree_list s1) 0 tab s1 of
             Inl e \<Rightarrow> Inl e
           | Inr (count, tab', s2) \<Rightarrow> Inr (count, tab', vlc_mutex_unlock s2)))"

subsection \<open>Pointer validation and the vars command\<close>

text \<open>
  \<^verbatim>\<open>ObjectExists\<close> calls itself on every child of \<open>root\<close>, so its depth is not
  bounded by the size of an argument: on a collection whose parent pointers form a
  cycle the C function does not return. The first argument bounds the depth of the
  nested calls; \<open>None\<close> is the call that needs more. \<open>obj\<close> is the untrusted
  pointer, possibly \<^verbatim>\<open>NULL\<close>.
\<close>

fun ObjectExists ::
  "nat \<Rightarrow> addr \<Rightarrow> pointer \<Rightarrow> state \<Rightarrow> (error + (pointer \<times> state)) option"
and ObjectExists_children ::
  "nat \<Rightarrow> addr list \<Rightarrow> addr \<Rightarrow> pointer \<Rightarrow> state \<Rightarrow> (error + (pointer \<times> state)) option"
where
  "ObjectExists 0 root obj s = None"
| "ObjectExists (Suc n) root obj s =
     (if Some root = obj then
        Some (case vlc_object_hold root s of
                Inl e \<Rightarrow> Inl e
              | Inr (h, s1) \<Rightarrow> Inr (Some h, s1))
      else if \<not> tree_lock s then Some (Inl AssertionFailed)
      else ObjectExists_children n (tree_list s) root obj s)"
| "ObjectExists_children n [] root obj s = Some (Inr (None, s))"
| "ObjectExists_children n (pos # rest) root obj s =
     (case heap s pos of
        None \<Rightarrow> Some (Inl InvalidPointer)
      | Some priv \<Rightarrow>
          if parent priv = Some root then
            (case ObjectExists n pos obj s of
               None \<Rightarrow> None
             | Some (Inl e) \<Rightarrow> Some (Inl e)
             | Some (Inr (Some ret, s1)) \<Rightarrow> Some (Inr (Some ret, s1))
             | Some (Inr (None, s1)) \<Rightarrow> ObjectExists_children n rest root obj s1)
          else ObjectExists_children n rest root obj s)"

text \<open>
  \<^verbatim>\<open>VarsCommand\<close>. \<open>sscanf_p\<close> is the C library's reading of a pointer with
  \<^verbatim>\<open>"%p"\<close>: \<open>None\<close> when no pointer could be read. The numbers behind
  \<^verbatim>\<open>VLC_SUCCESS\<close> and \<^verbatim>\<open>VLC_ENOOBJ\<close> are defined in a header that is not at hand;
  the two are different constants.
\<close>

definition VarsCommand_dump :: "addr \<Rightarrow> state \<Rightarrow> (error + (status \<times> state)) option" where
  "VarsCommand_dump obj s =
     (case heap s obj of
        None \<Rightarrow> Some (Inl InvalidPointer)
      | Some priv \<Rightarrow>
          let s1 = emit (PrintVarsHeader obj (typename priv) (parent priv)) s;
              s2 = emit (DumpVariables obj) s1
          in
            (case vlc_object_release obj s2 of
               Inl e \<Rightarrow> Some (Inl e)
             | Inr s3 \<Rightarrow> Some (Inr (VLC_SUCCESS, s3))))"

definition VarsCommand ::
  "(string \<Rightarrow> pointer option) \<Rightarrow> nat \<Rightarrow> addr \<Rightarrow> string \<Rightarrow> state
     \<Rightarrow> (error + (status \<times> state)) option" where
  "VarsCommand sscanf_p fuel obj psz_string s =
     (case sscanf_p psz_string of
        Some p \<Rightarrow>
          (case vlc_mutex_lock s of
             Inl e \<Rightarrow> Some (Inl e)
           | Inr s1 \<Rightarrow>
               (case ObjectExists fuel obj p s1 of
                  None \<Rightarrow> None
                | Some (Inl e) \<Rightarrow> Some (Inl e)
                | Some (Inr (p', s2)) \<Rightarrow>
                    let s3 = vlc_mutex_unlock s2 in
                    (case p' of
                       None \<Rightarrow>
                         Some (Inr (VLC_ENOOBJ,
                                    emit (MsgErr obj (''no such object: '' @ psz_string)) s3))
                     | Some q \<Rightarrow> VarsCommand_dump q s3)))
      | None \<Rightarrow>
          (case vlc_object_hold obj s of
             Inl e \<Rightarrow> Some (Inl e)
           | Inr (h, s1) \<Rightarrow> VarsCommand_dump obj s1))"

subsection \<open>A small tree\<close>

text \<open>
  A root at address 1 and one child of it at address 2, with the counts given; the
  child has a teardown hook. The theorems below are run on it.
\<close>

definition ex_root :: "32 word \<Rightarrow> vlc_object_internals" where
  "ex_root r = \<lparr>typename = Some ''libvlc'', refs = r, pf_destructor = None,
     resources = None, parent = None, logger = 0, no_interact = False, force = False,
     payload = []\<rparr>"

definition ex_child :: "addr \<Rightarrow> 32 word \<Rightarrow> vlc_object_internals" where
  "ex_child q r = \<lparr>typename = Some ''generic'', refs = r, pf_destructor = Some 7,
     resources = None, parent = Some q, logger = 0, no_interact = False, force = False,
     payload = []\<rparr>"

definition ex_state :: "32 word \<Rightarrow> 32 word \<Rightarrow> state" where
  "ex_state r1 r2 = \<lparr>heap = [1 \<mapsto> ex_root r1, 2 \<mapsto> ex_child 1 r2], tree_list = [2],
     tree_lock = False, trace = []\<rparr>"

section \<open>Reference counting\<close>

subsection \<open>Hold\<close>

lemma vlc_object_hold_live:
  "heap s p = Some priv \<Longrightarrow>
   vlc_object_hold p s =
     (if 0 < refs priv
      then Inr (p, s\<lparr>heap := (heap s)(p \<mapsto> priv\<lparr>refs := refs priv + 1\<rparr>),
                      trace := trace s @ [FetchAdd p]\<rparr>)
      else Inl AssertionFailed)"
  by (simp add: vlc_object_hold_def Let_def emit_def set_refs_def)

text \<open>
  C4. On a live object whose count is at least 1, \<^verbatim>\<open>vlc_object_hold\<close> returns the
  handle it was given and leaves a state that differs only in that object's count,
  which is one more, and in the record of the fetch-and-add. On an object whose count
  is 0 the call ends in the failed assertion and returns nothing. The count is a
  32-bit unsigned counter and the increment is taken in that type, as the last
  conjunct spells out.
\<close>

theorem hold_increments_or_asserts:
  assumes "heap s p = Some priv"
  shows "(1 \<le> refs priv \<longrightarrow>
            vlc_object_hold p s =
              Inr (p, s\<lparr>heap := (heap s)(p \<mapsto> priv\<lparr>refs := refs priv + 1\<rparr>),
                        trace := trace s @ [FetchAdd p]\<rparr>))
       \<and> (refs priv = 0 \<longrightarrow> vlc_object_hold p s = Inl AssertionFailed)
       \<and> unat (refs priv + 1) = (unat (refs priv) + 1) mod 2 ^ 32"
proof -
  have "1 \<le> refs priv \<longleftrightarrow> 0 < refs priv"
    by (simp add: word_less_nat_alt word_le_nat_alt) arith
  moreover have "unat (refs priv + 1) = (unat (refs priv) + 1) mod 2 ^ 32"
    by (simp add: unat_word_ariths)
  ultimately show ?thesis
    using assms by (simp add: vlc_object_hold_live)
qed

theorem hold_increments_or_asserts_witness:
  "heap (ex_state 1 1) 2 = Some (ex_child 1 1) \<and> 1 \<le> refs (ex_child 1 1)
   \<and> vlc_object_hold 2 (ex_state 1 1) =
       Inr (2, (ex_state 1 1)\<lparr>heap := [1 \<mapsto> ex_root 1, 2 \<mapsto> ex_child 1 2],
                 trace := [FetchAdd 2]\<rparr>)
   \<and> heap (ex_state 1 0) 2 = Some (ex_child 1 0) \<and> refs (ex_child 1 0) = 0
   \<and> vlc_object_hold 2 (ex_state 1 0) = Inl AssertionFailed"
  using hold_increments_or_asserts [of "ex_state 1 1" 2 "ex_child 1 1"]
    hold_increments_or_asserts [of "ex_state 1 0" 2 "ex_child 1 0"]
  by (simp add: ex_state_def ex_child_def ex_root_def)

subsection \<open>The fast path of release\<close>

lemma vlc_object_release_fast:
  "heap s obj = Some priv \<Longrightarrow> 1 < refs priv \<Longrightarrow>
   vlc_object_release obj s =
     Inr (s\<lparr>heap := (heap s)(obj \<mapsto> priv\<lparr>refs := refs priv - 1\<rparr>),
            trace := trace s @ [CompareExchange obj]\<rparr>)"
  by (simp add: vlc_object_release.simps Let_def emit_def set_refs_def)

text \<open>
  C2. When the count read from a live object is above 1, \<^verbatim>\<open>vlc_object_release\<close>
  returns a state that differs from the one it was called in only in the count of
  that object, which is one less, and in the record of the compare-and-swap: the lock
  is as it was and was not taken, the collection is as it was, the object and every
  other object are still on the heap with their other fields unchanged.
\<close>

theorem release_fast_path:
  assumes "heap s obj = Some priv" and "1 < refs priv"
  shows "vlc_object_release obj s =
           Inr (s\<lparr>heap := (heap s)(obj \<mapsto> priv\<lparr>refs := refs priv - 1\<rparr>),
                  trace := trace s @ [CompareExchange obj]\<rparr>)
       \<and> unat (refs priv - 1) = unat (refs priv) - 1"
proof -
  from assms(2) have "1 \<le> refs priv" by simp
  then have "unat (refs priv - 1) = unat (refs priv) - 1"
    by (simp add: unat_sub)
  with assms show ?thesis by (simp add: vlc_object_release_fast)
qed

theorem release_fast_path_witness:
  "heap (ex_state 2 1) 1 = Some (ex_root 2) \<and> 1 < refs (ex_root 2)
   \<and> vlc_object_release 1 (ex_state 2 1) =
       Inr ((ex_state 2 1)\<lparr>heap := [1 \<mapsto> ex_root 1, 2 \<mapsto> ex_child 1 1],
              trace := [CompareExchange 1]\<rparr>)"
  using release_fast_path [of "ex_state 2 1" 1 "ex_root 2"]
  by (simp add: ex_state_def ex_child_def ex_root_def fun_eq_iff)

section \<open>Destruction\<close>

text \<open>
  The calls the specification lists for the destruction of \<open>p\<close>, in its order.
\<close>

definition destroy_events :: "addr \<Rightarrow> vlc_object_internals \<Rightarrow> event list" where
  "destroy_events p priv =
     [SaveCancel]
     @ (case pf_destructor priv of None \<Rightarrow> [] | Some d \<Rightarrow> [CallDestructor d p])
     @ (if parent priv = None
        then [VarDelCallback p ''vars'' CbVarsCommand, VarDelCallback p ''tree'' CbTreeCommand]
        else [])
     @ [VarDestroyAll p, RestoreCancel, CondDestroy p, MutexDestroy p, Free p]"

lemma vlc_object_destroy_live:
  "heap s p = Some priv \<Longrightarrow>
   vlc_object_destroy p s =
     (if resources priv \<noteq> None then Inl AssertionFailed
      else Inr (s\<lparr>heap := (heap s)(p := None),
                  trace := trace s @ destroy_events p priv\<rparr>))"
  by (cases "pf_destructor priv")
    (simp_all add: vlc_object_destroy_def destroy_events_def call_destructor_def
      del_root_callbacks_def free_block_def emit_def Let_def)

lemma vlc_object_destroy_freed:
  "heap s p = None \<Longrightarrow> vlc_object_destroy p s = Inl InvalidPointer"
  by (simp add: vlc_object_destroy_def)

lemma vlc_object_release_freed:
  "heap s p = None \<Longrightarrow> vlc_object_release p s = Inl InvalidPointer"
  by (simp add: vlc_object_release.simps)

lemma vlc_object_hold_freed:
  "heap s p = None \<Longrightarrow> vlc_object_hold p s = Inl InvalidPointer"
  by (simp add: vlc_object_hold_def)

text \<open>
  C9. On a live object \<^verbatim>\<open>vlc_object_destroy\<close> first asserts that no resources are
  attached. When none are, it performs, in this order and each once: deferring
  cancellation, the teardown hook if one is set, for an object without parent the
  removal of the callbacks of \<^verbatim>\<open>vars\<close> and \<^verbatim>\<open>tree\<close>, the destruction of all
  variables, the restoring of cancellation, the destruction of the variable condition
  and of the variable lock, and the freeing of the block, after which the object is
  not on the heap. In the state it leaves, destroying, releasing or holding the same
  address again does not run: the block is gone.
\<close>

theorem destroy_sequence:
  assumes "heap s p = Some priv"
  shows "(resources priv \<noteq> None \<longrightarrow> vlc_object_destroy p s = Inl AssertionFailed)
       \<and> (resources priv = None \<longrightarrow>
            vlc_object_destroy p s =
              Inr (s\<lparr>heap := (heap s)(p := None),
                     trace := trace s
                       @ [SaveCancel]
                       @ (case pf_destructor priv of
                            None \<Rightarrow> []
                          | Some d \<Rightarrow> [CallDestructor d p])
                       @ (if parent priv = None
                          then [VarDelCallback p ''vars'' CbVarsCommand,
                                VarDelCallback p ''tree'' CbTreeCommand]
                          else [])
                       @ [VarDestroyAll p, RestoreCancel, CondDestroy p, MutexDestroy p,
                          Free p]\<rparr>))
       \<and> (\<forall>s'. vlc_object_destroy p s = Inr s' \<longrightarrow>
            heap s' p = None
            \<and> vlc_object_destroy p s' = Inl InvalidPointer
            \<and> vlc_object_release p s' = Inl InvalidPointer
            \<and> vlc_object_hold p s' = Inl InvalidPointer)"
proof -
  have run: "vlc_object_destroy p s =
      (if resources priv \<noteq> None then Inl AssertionFailed
       else Inr (s\<lparr>heap := (heap s)(p := None), trace := trace s @ destroy_events p priv\<rparr>))"
    using assms by (rule vlc_object_destroy_live)
  have gone: "heap s' p = None" if "vlc_object_destroy p s = Inr s'" for s'
    using that run by (auto split: if_splits)
  show ?thesis
    using run gone
    by (auto simp: destroy_events_def vlc_object_destroy_freed vlc_object_release_freed
        vlc_object_hold_freed)
qed

theorem destroy_sequence_witness:
  "heap (ex_state 1 0) 2 = Some (ex_child 1 0) \<and> resources (ex_child 1 0) = None
   \<and> vlc_object_destroy 2 (ex_state 1 0) =
       Inr ((ex_state 1 0)\<lparr>heap := [1 \<mapsto> ex_root 1],
              trace := [SaveCancel, CallDestructor 7 2, VarDestroyAll 2, RestoreCancel,
                        CondDestroy 2, MutexDestroy 2, Free 2]\<rparr>)
   \<and> heap (ex_state 0 1) 1 = Some (ex_root 0) \<and> resources (ex_root 0) = None
   \<and> vlc_object_destroy 1 (ex_state 0 1) =
       Inr ((ex_state 0 1)\<lparr>heap := [2 \<mapsto> ex_child 1 1],
              trace := [SaveCancel, VarDelCallback 1 ''vars'' CbVarsCommand,
                        VarDelCallback 1 ''tree'' CbTreeCommand, VarDestroyAll 1,
                        RestoreCancel, CondDestroy 1, MutexDestroy 1, Free 1]\<rparr>)
   \<and> vlc_object_destroy 2 ((ex_state 1 0)\<lparr>heap := [1 \<mapsto> ex_root 1],
              trace := [SaveCancel, CallDestructor 7 2, VarDestroyAll 2, RestoreCancel,
                        CondDestroy 2, MutexDestroy 2, Free 2]\<rparr>) = Inl InvalidPointer"
  using destroy_sequence [of "ex_state 1 0" 2 "ex_child 1 0"]
    destroy_sequence [of "ex_state 0 1" 1 "ex_root 0"]
  by (simp add: ex_state_def ex_child_def ex_root_def fun_eq_iff)

section \<open>The last release\<close>

lemma ObjectHasChildLocked_loop_none:
  "\<forall>c\<in>set xs. \<exists>cp. h c = Some cp \<and> parent cp \<noteq> Some obj \<Longrightarrow>
   ObjectHasChildLocked_loop h obj xs = Inr False"
  by (induction xs) auto

lemma ObjectHasChildLocked_loop_some:
  "\<forall>c\<in>set xs. h c \<noteq> None \<Longrightarrow> c \<in> set xs \<Longrightarrow> h c = Some cp \<Longrightarrow> parent cp = Some obj \<Longrightarrow>
   ObjectHasChildLocked_loop h obj xs = Inr True"
  by (induction xs) (auto split: option.splits)

lemma ObjectHasChild_unlocked:
  "\<not> tree_lock s \<Longrightarrow>
   ObjectHasChild obj s =
     (case ObjectHasChildLocked_loop (heap s) obj (tree_list s) of
        Inl e \<Rightarrow> Inl e
      | Inr ret \<Rightarrow> Inr (ret, s\<lparr>trace := trace s @ [MutexLock, MutexUnlock]\<rparr>))"
  by (simp add: ObjectHasChild_def ObjectHasChildLocked_def vlc_mutex_lock_def
      vlc_mutex_unlock_def emit_def split: sum.splits)


lemma ObjectHasChildLocked_loop_refs:
  "h obj = Some priv \<Longrightarrow>
   ObjectHasChildLocked_loop (h(obj \<mapsto> priv\<lparr>refs := r\<rparr>)) x xs =
   ObjectHasChildLocked_loop h x xs"
  by (induction xs) (auto split: option.splits)

lemma vlc_object_release_root:
  assumes "heap s obj = Some priv" and "parent priv = None" and "\<not> 1 < refs priv"
  shows "vlc_object_release obj s =
     (if refs priv \<noteq> 1 then Inl AssertionFailed
      else if tree_lock s then Inl Deadlock
      else
        (case ObjectHasChildLocked_loop (heap s) obj (tree_list s) of
           Inl e \<Rightarrow> Inl e
         | Inr has_child \<Rightarrow>
             if has_child \<or> resources priv \<noteq> None then Inl AssertionFailed
             else Inr (s\<lparr>heap := (heap s)(obj := None),
                         trace := trace s @ [FetchSub obj, MutexLock, MutexUnlock]
                                  @ destroy_events obj priv\<rparr>)))"
proof (cases "refs priv = 1")
  case False
  with assms show ?thesis
    by (simp add: vlc_object_release.simps [of obj s] Let_def)
next
  case True
  show ?thesis
  proof (cases "tree_lock s")
    case locked: True
    with assms \<open>refs priv = 1\<close> show ?thesis
      by (simp add: vlc_object_release.simps [of obj s] Let_def ObjectHasChild_def
          vlc_mutex_lock_def emit_def set_refs_def)
  next
    case unlocked: False
    let ?s1 = "emit (FetchSub obj) (set_refs obj priv (refs priv - 1) s)"
    have s1: "\<not> tree_lock ?s1" "tree_list ?s1 = tree_list s"
      "heap ?s1 = (heap s)(obj \<mapsto> priv\<lparr>refs := refs priv - 1\<rparr>)"
      "trace ?s1 = trace s @ [FetchSub obj]"
      using unlocked by (simp_all add: emit_def set_refs_def)
    have scan: "ObjectHasChildLocked_loop (heap ?s1) obj (tree_list ?s1) =
        ObjectHasChildLocked_loop (heap s) obj (tree_list s)"
      using assms(1) by (simp add: s1 ObjectHasChildLocked_loop_refs)
    have rel: "vlc_object_release obj s =
        (case ObjectHasChild obj ?s1 of
           Inl e \<Rightarrow> Inl e
         | Inr (has_child, s2) \<Rightarrow>
             if has_child then Inl AssertionFailed else vlc_object_destroy obj s2)"
      using assms \<open>refs priv = 1\<close>
      by (simp add: vlc_object_release.simps [of obj s] Let_def)
    show ?thesis
    proof (cases "ObjectHasChildLocked_loop (heap s) obj (tree_list s)")
      case (Inl e)
      then show ?thesis
        using rel scan s1(1) unlocked \<open>refs priv = 1\<close>
        by (simp add: ObjectHasChild_unlocked)
    next
      case (Inr b)
      let ?s2 = "?s1\<lparr>trace := trace ?s1 @ [MutexLock, MutexUnlock]\<rparr>"
      have hc: "ObjectHasChild obj ?s1 = Inr (b, ?s2)"
        using Inr scan s1(1) by (simp add: ObjectHasChild_unlocked)
      have live: "heap ?s2 obj = Some (priv\<lparr>refs := refs priv - 1\<rparr>)"
        by (simp add: s1)
      let ?priv' = "priv\<lparr>refs := refs priv - 1\<rparr>"
      have d: "vlc_object_destroy obj ?s2 =
          (if resources ?priv' \<noteq> None then Inl AssertionFailed
           else Inr (?s2\<lparr>heap := (heap ?s2)(obj := None),
                       trace := trace ?s2 @ destroy_events obj ?priv'\<rparr>))"
        by (rule vlc_object_destroy_live [OF live])
      have e: "destroy_events obj ?priv' = destroy_events obj priv"
        by (simp add: destroy_events_def)
      have st: "?s2\<lparr>heap := (heap ?s2)(obj := None),
                    trace := trace ?s2 @ destroy_events obj priv\<rparr> =
          s\<lparr>heap := (heap s)(obj := None),
            trace := trace s @ [FetchSub obj, MutexLock, MutexUnlock]
                     @ destroy_events obj priv\<rparr>"
        by (simp add: emit_def set_refs_def)
      have "vlc_object_destroy obj ?s2 =
          (if resources priv \<noteq> None then Inl AssertionFailed
           else Inr (s\<lparr>heap := (heap s)(obj := None),
                       trace := trace s @ [FetchSub obj, MutexLock, MutexUnlock]
                                @ destroy_events obj priv\<rparr>))"
        unfolding d e st by simp
      then show ?thesis
        using rel hc Inr unlocked \<open>refs priv = 1\<close> by simp
    qed
  qed
qed


lemma word_not_above_one:
  fixes r :: "32 word"
  assumes "\<not> 1 < r" and "r \<noteq> 0"
  shows "r = 1"
proof -
  from assms(1) have "unat r \<le> 1" by (simp add: word_less_nat_alt)
  moreover from assms(2) have "unat r \<noteq> 0" by (simp add: unat_eq_0)
  ultimately have "unat r = unat (1 :: 32 word)" by simp
  then show ?thesis by (simp only: word_unat_eq_iff)
qed

lemma vlc_object_release_child:
  assumes "heap s obj = Some priv" and "parent priv = Some par" and "\<not> 1 < refs priv"
  shows "vlc_object_release obj s =
     (if tree_lock s then Inl Deadlock
      else if refs priv = 0 then Inl AssertionFailed
      else if obj \<notin> set (tree_list s) then Inl InvalidPointer
      else
        (case ObjectHasChildLocked_loop (heap s) obj (remove1 obj (tree_list s)) of
           Inl e \<Rightarrow> Inl e
         | Inr has_child \<Rightarrow>
             if has_child \<or> resources priv \<noteq> None then Inl AssertionFailed
             else vlc_object_release par
                    (s\<lparr>heap := (heap s)(obj := None),
                       tree_list := remove1 obj (tree_list s),
                       trace := trace s @ [MutexLock, FetchSub obj, ListRemove obj,
                                           MutexUnlock, MutexLock, MutexUnlock]
                                @ destroy_events obj priv\<rparr>)))"
proof (cases "tree_lock s")
  case True
  with assms show ?thesis
    by (simp add: vlc_object_release.simps [of obj s] Let_def vlc_mutex_lock_def)
next
  case unlocked: False
  show ?thesis
  proof (cases "refs priv = 0")
    case True
    with assms unlocked show ?thesis
      by (simp add: vlc_object_release.simps [of obj s] Let_def vlc_mutex_lock_def)
  next
    case False
    with assms(3) have one: "refs priv = 1" by (rule word_not_above_one)
    show ?thesis
    proof (cases "obj \<in> set (tree_list s)")
      case False
      with assms unlocked one show ?thesis
        by (simp add: vlc_object_release.simps [of obj s] Let_def vlc_mutex_lock_def
            vlc_list_remove_def emit_def set_refs_def)
    next
      case member: True
      let ?priv' = "priv\<lparr>refs := refs priv - 1\<rparr>"
      let ?s4 = "s\<lparr>heap := (heap s)(obj \<mapsto> ?priv'),
                    tree_list := remove1 obj (tree_list s), tree_lock := False,
                    trace := trace s @ [MutexLock, FetchSub obj, ListRemove obj, MutexUnlock]\<rparr>"
      have rel: "vlc_object_release obj s =
          (case ObjectHasChild obj ?s4 of
             Inl e \<Rightarrow> Inl e
           | Inr (has_child, s5) \<Rightarrow>
               if has_child then Inl AssertionFailed
               else
                 (case vlc_object_destroy obj s5 of
                    Inl e \<Rightarrow> Inl e
                  | Inr s6 \<Rightarrow> vlc_object_release par s6))"
        using assms unlocked one member
        by (simp add: vlc_object_release.simps [of obj s] Let_def vlc_mutex_lock_def
            vlc_list_remove_def vlc_mutex_unlock_def emit_def set_refs_def)
      have s4: "\<not> tree_lock ?s4" by simp
      let ?s5 = "?s4\<lparr>trace := trace ?s4 @ [MutexLock, MutexUnlock]\<rparr>"
      let ?s6 = "s\<lparr>heap := (heap s)(obj := None),
                    tree_list := remove1 obj (tree_list s),
                    trace := trace s @ [MutexLock, FetchSub obj, ListRemove obj,
                                        MutexUnlock, MutexLock, MutexUnlock]
                             @ destroy_events obj priv\<rparr>"
      have scan: "ObjectHasChildLocked_loop (heap ?s4) obj (tree_list ?s4) =
          ObjectHasChildLocked_loop (heap s) obj (remove1 obj (tree_list s))"
        using assms(1) by (simp add: ObjectHasChildLocked_loop_refs)
      have hc: "ObjectHasChild obj ?s4 =
          (case ObjectHasChildLocked_loop (heap s) obj (remove1 obj (tree_list s)) of
             Inl e \<Rightarrow> Inl e
           | Inr ret \<Rightarrow> Inr (ret, ?s5))"
        using ObjectHasChild_unlocked [OF s4, of obj] unfolding scan .
      have live: "heap ?s5 obj = Some ?priv'" by simp
      have d: "vlc_object_destroy obj ?s5 =
          (if resources ?priv' \<noteq> None then Inl AssertionFailed
           else Inr (?s5\<lparr>heap := (heap ?s5)(obj := None),
                       trace := trace ?s5 @ destroy_events obj ?priv'\<rparr>))"
        by (rule vlc_object_destroy_live [OF live])
      have e: "destroy_events obj ?priv' = destroy_events obj priv"
        by (simp add: destroy_events_def)
      have st: "?s5\<lparr>heap := (heap ?s5)(obj := None),
                    trace := trace ?s5 @ destroy_events obj priv\<rparr> = ?s6"
        using unlocked by (cases s) simp
      have d': "vlc_object_destroy obj ?s5 =
          (if resources priv \<noteq> None then Inl AssertionFailed else Inr ?s6)"
        unfolding d e st by simp
      have main: "vlc_object_release obj s =
          (case ObjectHasChildLocked_loop (heap s) obj (remove1 obj (tree_list s)) of
             Inl e \<Rightarrow> Inl e
           | Inr has_child \<Rightarrow>
               if has_child \<or> resources priv \<noteq> None then Inl AssertionFailed
               else vlc_object_release par ?s6)"
      proof (cases "ObjectHasChildLocked_loop (heap s) obj (remove1 obj (tree_list s))")
        case (Inl e)
        show ?thesis unfolding rel hc Inl by (simp only: sum.case)
      next
        case (Inr b)
        have "vlc_object_release obj s =
            (if b then Inl AssertionFailed
             else (case vlc_object_destroy obj ?s5 of
                     Inl e \<Rightarrow> Inl e
                   | Inr s6 \<Rightarrow> vlc_object_release par s6))"
          unfolding rel hc Inr by (simp only: sum.case prod.case)
        also have "\<dots> =
            (if b \<or> resources priv \<noteq> None then Inl AssertionFailed
             else vlc_object_release par ?s6)"
          unfolding d' by simp
        finally show ?thesis unfolding Inr by (simp only: sum.case)
      qed
      show ?thesis
        using unlocked one member unfolding main by simp
    qed
  qed
qed


text \<open>
  C1. Let the object have a parent. When its count is 1, the lock is free, the
  object is in the collection, no other entry of the collection names it as parent
  and no resources are attached, \<^verbatim>\<open>vlc_object_release\<close> takes the lock, decrements,
  unlinks the object, releases the lock, runs the no-children assertion (which takes
  and releases the lock once more), destroys the object, and what remains of the call
  is one \<^verbatim>\<open>vlc_object_release\<close> of the parent in the state so reached. When the
  count is above 1 the call only stores the count minus one: no lock, no unlinking,
  no destruction, no release of the parent.
\<close>

theorem release_last_reference_of_child:
  "(heap s obj = Some priv \<and> parent priv = Some par \<and> refs priv = 1 \<and> \<not> tree_lock s
      \<and> obj \<in> set (tree_list s)
      \<and> (\<forall>c\<in>set (remove1 obj (tree_list s)). \<exists>cp. heap s c = Some cp \<and> parent cp \<noteq> Some obj)
      \<and> resources priv = None
    \<longrightarrow> vlc_object_release obj s =
          vlc_object_release par
            (s\<lparr>heap := (heap s)(obj := None),
               tree_list := remove1 obj (tree_list s),
               trace := trace s @ [MutexLock, FetchSub obj, ListRemove obj, MutexUnlock,
                                   MutexLock, MutexUnlock]
                        @ destroy_events obj priv\<rparr>))
   \<and> (heap s obj = Some priv \<and> parent priv = Some par \<and> 1 < refs priv
    \<longrightarrow> vlc_object_release obj s =
          Inr (s\<lparr>heap := (heap s)(obj \<mapsto> priv\<lparr>refs := refs priv - 1\<rparr>),
                 trace := trace s @ [CompareExchange obj]\<rparr>))"
proof (intro conjI impI)
  assume a: "heap s obj = Some priv \<and> parent priv = Some par \<and> refs priv = 1 \<and> \<not> tree_lock s
      \<and> obj \<in> set (tree_list s)
      \<and> (\<forall>c\<in>set (remove1 obj (tree_list s)). \<exists>cp. heap s c = Some cp \<and> parent cp \<noteq> Some obj)
      \<and> resources priv = None"
  then have scan: "ObjectHasChildLocked_loop (heap s) obj (remove1 obj (tree_list s)) = Inr False"
    by (intro ObjectHasChildLocked_loop_none) simp
  from a have "\<not> 1 < refs priv" by simp
  with a show "vlc_object_release obj s =
      vlc_object_release par
        (s\<lparr>heap := (heap s)(obj := None),
           tree_list := remove1 obj (tree_list s),
           trace := trace s @ [MutexLock, FetchSub obj, ListRemove obj, MutexUnlock,
                               MutexLock, MutexUnlock]
                    @ destroy_events obj priv\<rparr>)"
    by (simp add: vlc_object_release_child [of s obj priv par] scan)
next
  assume "heap s obj = Some priv \<and> parent priv = Some par \<and> 1 < refs priv"
  then show "vlc_object_release obj s =
      Inr (s\<lparr>heap := (heap s)(obj \<mapsto> priv\<lparr>refs := refs priv - 1\<rparr>),
             trace := trace s @ [CompareExchange obj]\<rparr>)"
    by (simp add: vlc_object_release_fast)
qed

theorem release_last_reference_of_child_witness:
  "heap (ex_state 2 1) 2 = Some (ex_child 1 1) \<and> parent (ex_child 1 1) = Some 1
   \<and> refs (ex_child 1 1) = 1 \<and> \<not> tree_lock (ex_state 2 1) \<and> 2 \<in> set (tree_list (ex_state 2 1))
   \<and> resources (ex_child 1 1) = None
   \<and> vlc_object_release 2 (ex_state 2 1) =
       Inr \<lparr>heap = [1 \<mapsto> ex_root 1], tree_list = [], tree_lock = False,
            trace = [MutexLock, FetchSub 2, ListRemove 2, MutexUnlock, MutexLock, MutexUnlock,
                     SaveCancel, CallDestructor 7 2, VarDestroyAll 2, RestoreCancel,
                     CondDestroy 2, MutexDestroy 2, Free 2, CompareExchange 1]\<rparr>
   \<and> heap (ex_state 2 2) 2 = Some (ex_child 1 2) \<and> 1 < refs (ex_child 1 2)
   \<and> vlc_object_release 2 (ex_state 2 2) =
       Inr \<lparr>heap = [1 \<mapsto> ex_root 2, 2 \<mapsto> ex_child 1 1], tree_list = [2], tree_lock = False,
            trace = [CompareExchange 2]\<rparr>"
  using release_last_reference_of_child [of "ex_state 2 1" 2 "ex_child 1 1" 1]
    release_last_reference_of_child [of "ex_state 2 2" 2 "ex_child 1 2" 1]
    vlc_object_release_fast [of "\<lparr>heap = [1 \<mapsto> ex_root 2], tree_list = [], tree_lock = False,
            trace = [MutexLock, FetchSub 2, ListRemove 2, MutexUnlock, MutexLock, MutexUnlock,
                     SaveCancel, CallDestructor 7 2, VarDestroyAll 2, RestoreCancel,
                     CondDestroy 2, MutexDestroy 2, Free 2]\<rparr>" 1 "ex_root 2"]
  by (simp add: ex_state_def ex_child_def ex_root_def destroy_events_def fun_eq_iff)

text \<open>
  C5, as amended. A release of an object without parent whose count is 1 decrements
  the count before any use of the lock, asserts that the value before the decrement
  was 1 and that no entry of the collection names the object as parent (the scan runs
  under the lock, inside \<^verbatim>\<open>ObjectHasChild\<close>), and destroys the object; the collection
  is left as it was. With a count of 0, or with a child in the collection, the call
  ends in a failed assertion. With a count above 1 the object without parent takes
  the fast path like any other and is not destroyed.
\<close>

theorem release_root_last_reference:
  assumes "heap s obj = Some priv" and "parent priv = None"
  shows "(refs priv = 1 \<and> \<not> tree_lock s
            \<and> (\<forall>c\<in>set (tree_list s). \<exists>cp. heap s c = Some cp \<and> parent cp \<noteq> Some obj)
            \<and> resources priv = None
          \<longrightarrow> vlc_object_release obj s =
                Inr (s\<lparr>heap := (heap s)(obj := None),
                       trace := trace s @ [FetchSub obj, MutexLock, MutexUnlock]
                                @ destroy_events obj priv\<rparr>))
       \<and> (refs priv = 0 \<longrightarrow> vlc_object_release obj s = Inl AssertionFailed)
       \<and> (refs priv = 1 \<and> \<not> tree_lock s
            \<and> (\<forall>c\<in>set (tree_list s). heap s c \<noteq> None)
            \<and> (\<exists>c\<in>set (tree_list s). \<exists>cp. heap s c = Some cp \<and> parent cp = Some obj)
          \<longrightarrow> vlc_object_release obj s = Inl AssertionFailed)
       \<and> (1 < refs priv
          \<longrightarrow> vlc_object_release obj s =
                Inr (s\<lparr>heap := (heap s)(obj \<mapsto> priv\<lparr>refs := refs priv - 1\<rparr>),
                       trace := trace s @ [CompareExchange obj]\<rparr>))"
proof (intro conjI impI)
  assume a: "refs priv = 1 \<and> \<not> tree_lock s
      \<and> (\<forall>c\<in>set (tree_list s). \<exists>cp. heap s c = Some cp \<and> parent cp \<noteq> Some obj)
      \<and> resources priv = None"
  then have "ObjectHasChildLocked_loop (heap s) obj (tree_list s) = Inr False"
    by (intro ObjectHasChildLocked_loop_none) simp
  moreover from a have "\<not> 1 < refs priv" by simp
  ultimately show "vlc_object_release obj s =
      Inr (s\<lparr>heap := (heap s)(obj := None),
             trace := trace s @ [FetchSub obj, MutexLock, MutexUnlock]
                      @ destroy_events obj priv\<rparr>)"
    using a assms by (simp add: vlc_object_release_root [of s obj priv])
next
  assume "refs priv = 0"
  then show "vlc_object_release obj s = Inl AssertionFailed"
    using assms by (simp add: vlc_object_release_root [of s obj priv])
next
  assume a: "refs priv = 1 \<and> \<not> tree_lock s
      \<and> (\<forall>c\<in>set (tree_list s). heap s c \<noteq> None)
      \<and> (\<exists>c\<in>set (tree_list s). \<exists>cp. heap s c = Some cp \<and> parent cp = Some obj)"
  then obtain c cp where "c \<in> set (tree_list s)" "heap s c = Some cp" "parent cp = Some obj"
    by blast
  with a have "ObjectHasChildLocked_loop (heap s) obj (tree_list s) = Inr True"
    by (intro ObjectHasChildLocked_loop_some [of _ _ c cp]) simp_all
  moreover from a have "\<not> 1 < refs priv" by simp
  ultimately show "vlc_object_release obj s = Inl AssertionFailed"
    using a assms by (simp add: vlc_object_release_root [of s obj priv])
next
  assume "1 < refs priv"
  with assms show "vlc_object_release obj s =
      Inr (s\<lparr>heap := (heap s)(obj \<mapsto> priv\<lparr>refs := refs priv - 1\<rparr>),
             trace := trace s @ [CompareExchange obj]\<rparr>)"
    by (simp add: vlc_object_release_fast)
qed

definition ex_lone_root :: state where
  "ex_lone_root = \<lparr>heap = [1 \<mapsto> ex_root 1], tree_list = [], tree_lock = False, trace = []\<rparr>"

theorem release_root_last_reference_witness:
  "heap ex_lone_root 1 = Some (ex_root 1) \<and> parent (ex_root 1) = None \<and> refs (ex_root 1) = 1
   \<and> \<not> tree_lock ex_lone_root \<and> resources (ex_root 1) = None
   \<and> vlc_object_release 1 ex_lone_root =
       Inr \<lparr>heap = Map.empty, tree_list = [], tree_lock = False,
            trace = [FetchSub 1, MutexLock, MutexUnlock, SaveCancel,
                     VarDelCallback 1 ''vars'' CbVarsCommand,
                     VarDelCallback 1 ''tree'' CbTreeCommand, VarDestroyAll 1,
                     RestoreCancel, CondDestroy 1, MutexDestroy 1, Free 1]\<rparr>
   \<and> heap (ex_state 1 1) 1 = Some (ex_root 1)
   \<and> heap (ex_state 1 1) 2 = Some (ex_child 1 1) \<and> parent (ex_child 1 1) = Some 1
   \<and> vlc_object_release 1 (ex_state 1 1) = Inl AssertionFailed
   \<and> heap (ex_state 0 1) 1 = Some (ex_root 0) \<and> refs (ex_root 0) = 0
   \<and> vlc_object_release 1 (ex_state 0 1) = Inl AssertionFailed"
  using release_root_last_reference [of ex_lone_root 1 "ex_root 1"]
    release_root_last_reference [of "ex_state 1 1" 1 "ex_root 1"]
    release_root_last_reference [of "ex_state 0 1" 1 "ex_root 0"]
  by (simp add: ex_lone_root_def ex_state_def ex_child_def ex_root_def destroy_events_def
      fun_eq_iff)

text \<open>
  C5 as stated fails for the root of the small tree when its count is 2: the
  release stores 1 by the compare-and-swap and returns; nothing is asserted and the
  root is still on the heap.
\<close>

theorem release_root_counterexample:
  "heap (ex_state 2 1) 1 = Some (ex_root 2) \<and> parent (ex_root 2) = None
   \<and> vlc_object_release 1 (ex_state 2 1) =
       Inr \<lparr>heap = [1 \<mapsto> ex_root 1, 2 \<mapsto> ex_child 1 1], tree_list = [2],
            tree_lock = False, trace = [CompareExchange 1]\<rparr>"
  by (simp add: vlc_object_release_fast [of _ _ "ex_root 2"] ex_state_def ex_child_def
      ex_root_def fun_eq_iff)


section \<open>Creation\<close>

text \<open>The state before any object exists.\<close>

definition initial_state :: state where
  "initial_state = \<lparr>heap = Map.empty, tree_list = [], tree_lock = False, trace = []\<rparr>"

lemma size_sum_fits:
  fixes hsz len :: size_t
  assumes "unat hsz + unat len < 2 ^ 64"
  shows "\<not> unat (hsz + len) < unat hsz + unat len"
proof -
  from assms have "unat (hsz + len) = unat hsz + unat len"
    by (simp add: unat_add_lem [THEN iffD1])
  then show ?thesis by simp
qed

lemma size_sum_wraps:
  fixes hsz len :: size_t
  assumes "2 ^ 64 \<le> unat hsz + unat len"
  shows "unat (hsz + len) < unat hsz + unat len"
proof -
  have "unat (hsz + len) < 2 ^ 64" using unsigned_less [of "hsz + len"] by simp
  with assms show ?thesis by simp
qed

lemma vlc_custom_create_root:
  "sz \<le> len \<Longrightarrow> unat hsz + unat len < 2 ^ 64 \<Longrightarrow> malloc (hsz + len) = Some (a, junk) \<Longrightarrow>
   vlc_custom_create sz hsz malloc None len tname s =
     Inr (Some a,
          s\<lparr>heap := (heap s)(a \<mapsto> junk\<lparr>typename := tname, refs := 1, pf_destructor := None,
                       resources := None, parent := None, no_interact := False,
                       force := False, payload := replicate (unat (len - sz)) 0\<rparr>),
            trace := trace s @ [MutexInit a, CondInit a, SaveCancel,
                       VarCreate a ''tree'' [VLC_VAR_STRING, VLC_VAR_ISCOMMAND],
                       VarAddCallback a ''tree'' CbTreeCommand,
                       VarCreate a ''vars'' [VLC_VAR_STRING, VLC_VAR_ISCOMMAND],
                       VarAddCallback a ''vars'' CbVarsCommand,
                       RestoreCancel]\<rparr>)"
  by (cases junk)
    (simp add: vlc_custom_create_def size_sum_fits Let_def write_obj_def emit_def
      create_root_vars_def)

lemma vlc_custom_create_child:
  "sz \<le> len \<Longrightarrow> unat hsz + unat len < 2 ^ 64 \<Longrightarrow> malloc (hsz + len) = Some (a, junk) \<Longrightarrow>
   heap s p = Some ppriv \<Longrightarrow> p \<noteq> a \<Longrightarrow> 0 < refs ppriv \<Longrightarrow> \<not> tree_lock s \<Longrightarrow>
   vlc_custom_create sz hsz malloc (Some p) len tname s =
     Inr (Some a,
          s\<lparr>heap := (heap s)(a \<mapsto> junk\<lparr>typename := tname, refs := 1, pf_destructor := None,
                       resources := None, parent := Some p, logger := logger ppriv,
                       no_interact := no_interact ppriv,
                       force := False, payload := replicate (unat (len - sz)) 0\<rparr>,
                     p \<mapsto> ppriv\<lparr>refs := refs ppriv + 1\<rparr>),
            tree_list := tree_list s @ [a],
            trace := trace s @ [MutexInit a, CondInit a, FetchAdd p, MutexLock,
                       ListAppend a, MutexUnlock]\<rparr>)"
  apply (simp add: vlc_custom_create_def size_sum_fits Let_def write_obj_def emit_def
      vlc_object_hold_def set_refs_def vlc_mutex_lock_def vlc_mutex_unlock_def
      vlc_list_append_def)
  apply (cases s; cases junk)
  apply (simp add: fun_eq_iff)
  done

lemma vlc_custom_create_overrun:
  "sz \<le> len \<Longrightarrow> 2 ^ 64 \<le> unat hsz + unat len \<Longrightarrow> malloc (hsz + len) = Some (a, junk) \<Longrightarrow>
   vlc_custom_create sz hsz malloc par len tname s = Inl InvalidPointer"
  by (simp add: vlc_custom_create_def size_sum_wraps)

lemma vlc_custom_create_no_memory:
  "sz \<le> len \<Longrightarrow> malloc (hsz + len) = None \<Longrightarrow>
   vlc_custom_create sz hsz malloc par len tname s = Inr (None, s)"
  by (simp add: vlc_custom_create_def)

text \<open>
  C7, as amended. Let the length be at least \<^verbatim>\<open>sizeof (vlc_object_t)\<close>, the sum of
  the header size and the length fit \<^verbatim>\<open>size_t\<close>, and the allocator return a block.
  Creating an object with a \<^verbatim>\<open>NULL\<close> parent clears its \<^verbatim>\<open>no_interact\<close> flag, so the
  root is interactive by default, and calls, with cancellation deferred,
  \<^verbatim>\<open>var_Create\<close> and \<^verbatim>\<open>var_AddCallback\<close> for \<^verbatim>\<open>tree\<close> with \<^verbatim>\<open>TreeCommand\<close> and for
  \<^verbatim>\<open>vars\<close> with \<^verbatim>\<open>VarsCommand\<close>. Creating an object with a live parent of non-zero
  count copies the parent's logger and flag, holds the parent, appends the object to
  the collection under the lock, and makes no call to the variable store. Where the
  sum of the sizes wraps and the allocator returns a block, the writes leave the
  block and no object results; where the allocator fails, the call returns \<^verbatim>\<open>NULL\<close>
  and changes nothing.
\<close>

theorem create_root_and_child:
  "(sz \<le> len \<and> unat hsz + unat len < 2 ^ 64 \<and> malloc (hsz + len) = Some (a, junk) \<longrightarrow>
      vlc_custom_create sz hsz malloc None len tname s =
        Inr (Some a,
             s\<lparr>heap := (heap s)(a \<mapsto> junk\<lparr>typename := tname, refs := 1,
                          pf_destructor := None, resources := None, parent := None,
                          no_interact := False, force := False,
                          payload := replicate (unat (len - sz)) 0\<rparr>),
               trace := trace s @ [MutexInit a, CondInit a, SaveCancel,
                          VarCreate a ''tree'' [VLC_VAR_STRING, VLC_VAR_ISCOMMAND],
                          VarAddCallback a ''tree'' CbTreeCommand,
                          VarCreate a ''vars'' [VLC_VAR_STRING, VLC_VAR_ISCOMMAND],
                          VarAddCallback a ''vars'' CbVarsCommand,
                          RestoreCancel]\<rparr>))
   \<and> (sz \<le> len \<and> unat hsz + unat len < 2 ^ 64 \<and> malloc (hsz + len) = Some (a, junk)
        \<and> heap s p = Some ppriv \<and> p \<noteq> a \<and> 0 < refs ppriv \<and> \<not> tree_lock s \<longrightarrow>
      vlc_custom_create sz hsz malloc (Some p) len tname s =
        Inr (Some a,
             s\<lparr>heap := (heap s)(a \<mapsto> junk\<lparr>typename := tname, refs := 1,
                          pf_destructor := None, resources := None, parent := Some p,
                          logger := logger ppriv, no_interact := no_interact ppriv,
                          force := False, payload := replicate (unat (len - sz)) 0\<rparr>,
                        p \<mapsto> ppriv\<lparr>refs := refs ppriv + 1\<rparr>),
               tree_list := tree_list s @ [a],
               trace := trace s @ [MutexInit a, CondInit a, FetchAdd p, MutexLock,
                          ListAppend a, MutexUnlock]\<rparr>))
   \<and> (sz \<le> len \<and> 2 ^ 64 \<le> unat hsz + unat len \<and> malloc (hsz + len) = Some (a, junk) \<longrightarrow>
      vlc_custom_create sz hsz malloc par len tname s = Inl InvalidPointer)
   \<and> (sz \<le> len \<and> malloc (hsz + len) = None \<longrightarrow>
      vlc_custom_create sz hsz malloc par len tname s = Inr (None, s))
   \<and> (\<not> sz \<le> len \<longrightarrow>
      vlc_custom_create sz hsz malloc par len tname s = Inl AssertionFailed)"
  by (simp add: vlc_custom_create_root vlc_custom_create_child vlc_custom_create_overrun
      vlc_custom_create_no_memory) (simp add: vlc_custom_create_def)

text \<open>
  A block as the allocator may hand it out: every field holds something. The
  allocator \<open>ex_malloc a\<close> returns such a block at address \<open>a\<close>.
\<close>

definition ex_junk :: vlc_object_internals where
  "ex_junk = \<lparr>typename = None, refs = 99, pf_destructor = Some 3, resources = Some 4,
     parent = Some 5, logger = 0, no_interact = True, force = True, payload = [1, 2]\<rparr>"

definition ex_malloc :: "addr \<Rightarrow> size_t \<Rightarrow> (addr \<times> vlc_object_internals) option" where
  "ex_malloc a n = Some (a, ex_junk)"

theorem create_root_and_child_witness:
  "(16::size_t) \<le> 16 \<and> unat (64::size_t) + unat (16::size_t) < 2 ^ 64
   \<and> ex_malloc 1 (64 + 16) = Some (1, ex_junk)
   \<and> vlc_custom_create 16 64 (ex_malloc 1) None 16 (Some ''libvlc'') initial_state =
       Inr (Some 1,
            \<lparr>heap = [1 \<mapsto> ex_root 1], tree_list = [], tree_lock = False,
             trace = [MutexInit 1, CondInit 1, SaveCancel,
                      VarCreate 1 ''tree'' [VLC_VAR_STRING, VLC_VAR_ISCOMMAND],
                      VarAddCallback 1 ''tree'' CbTreeCommand,
                      VarCreate 1 ''vars'' [VLC_VAR_STRING, VLC_VAR_ISCOMMAND],
                      VarAddCallback 1 ''vars'' CbVarsCommand,
                      RestoreCancel]\<rparr>)
   \<and> heap ex_lone_root 1 = Some (ex_root 1) \<and> (1::nat) \<noteq> 2 \<and> 0 < refs (ex_root 1)
   \<and> \<not> tree_lock ex_lone_root
   \<and> vlc_custom_create 16 64 (ex_malloc 2) (Some 1) 16 (Some ''generic'') ex_lone_root =
       Inr (Some 2,
            \<lparr>heap = [1 \<mapsto> ex_root 2,
                     2 \<mapsto> (ex_child 1 1)\<lparr>pf_destructor := None\<rparr>],
             tree_list = [2], tree_lock = False,
             trace = [MutexInit 2, CondInit 2, FetchAdd 1, MutexLock, ListAppend 2,
                      MutexUnlock]\<rparr>)
   \<and> (16::size_t) \<le> 18446744073709551600
   \<and> (2::nat) ^ 64 \<le> unat (64::size_t) + unat (18446744073709551600 :: size_t)
   \<and> vlc_custom_create 16 64 (ex_malloc 1) None 18446744073709551600 (Some ''libvlc'')
         initial_state =
       Inl InvalidPointer
   \<and> vlc_custom_create 16 64 (\<lambda>n. None) None 16 (Some ''libvlc'') initial_state =
       Inr (None, initial_state)
   \<and> \<not> (16::size_t) \<le> 8
   \<and> vlc_custom_create 16 64 (ex_malloc 1) None 8 (Some ''libvlc'') initial_state =
       Inl AssertionFailed"
  using create_root_and_child [of 16 16 64 "ex_malloc 1" 1 ex_junk "Some ''libvlc''"
      initial_state 1 "ex_root 1" None]
    create_root_and_child [of 16 16 64 "ex_malloc 2" 2 ex_junk "Some ''generic''"
      ex_lone_root 1 "ex_root 1" None]
    create_root_and_child [of 16 18446744073709551600 64 "ex_malloc 1" 1 ex_junk "Some ''libvlc''"
      initial_state 1 "ex_root 1" None]
    create_root_and_child [of 16 16 64 "\<lambda>n. None" 1 ex_junk "Some ''libvlc''"
      initial_state 1 "ex_root 1" None]
    create_root_and_child [of 16 8 64 "ex_malloc 1" 1 ex_junk "Some ''libvlc''"
      initial_state 1 "ex_root 1" None]
  by (simp add: ex_malloc_def initial_state_def ex_lone_root_def ex_junk_def ex_root_def
      ex_child_def fun_eq_iff)

text \<open>
  C7 as stated fails on the first object ever created: its flag
  \<^verbatim>\<open>no_interact\<close> is false after the call, whatever the block held before.
\<close>

theorem create_root_counterexample:
  "vlc_custom_create 16 64 (ex_malloc 1) None 16 (Some ''libvlc'') initial_state =
       Inr (Some 1,
            \<lparr>heap = [1 \<mapsto> ex_root 1], tree_list = [], tree_lock = False,
             trace = [MutexInit 1, CondInit 1, SaveCancel,
                      VarCreate 1 ''tree'' [VLC_VAR_STRING, VLC_VAR_ISCOMMAND],
                      VarAddCallback 1 ''tree'' CbTreeCommand,
                      VarCreate 1 ''vars'' [VLC_VAR_STRING, VLC_VAR_ISCOMMAND],
                      VarAddCallback 1 ''vars'' CbVarsCommand,
                      RestoreCancel]\<rparr>)
   \<and> no_interact (ex_root 1) = False \<and> no_interact ex_junk = True"
  by (simp add: vlc_custom_create_root [of _ _ _ _ 1 ex_junk] ex_malloc_def initial_state_def
      ex_junk_def ex_root_def fun_eq_iff)


section \<open>Children\<close>

text \<open>
  The children of an object are the entries of the collection whose parent field
  names it, in the order of the collection; \<open>inc_refs\<close> is one hold.
\<close>

definition is_child :: "(addr \<Rightarrow> vlc_object_internals option) \<Rightarrow> addr \<Rightarrow> addr \<Rightarrow> bool" where
  "is_child h obj c = (case h c of None \<Rightarrow> False | Some cp \<Rightarrow> parent cp = Some obj)"

definition children_of :: "state \<Rightarrow> addr \<Rightarrow> addr list" where
  "children_of s obj = filter (is_child (heap s) obj) (tree_list s)"

definition inc_refs :: "vlc_object_internals \<Rightarrow> vlc_object_internals" where
  "inc_refs priv = priv\<lparr>refs := refs priv + 1\<rparr>"

lemma is_child_upd_refs:
  "h p = Some priv \<Longrightarrow> is_child (h(p \<mapsto> priv\<lparr>refs := r\<rparr>)) obj c = is_child h obj c"
  by (simp add: is_child_def)

lemma filter_is_child_upd_refs:
  "h p = Some priv \<Longrightarrow>
   filter (is_child (h(p \<mapsto> priv\<lparr>refs := r\<rparr>)) obj) xs = filter (is_child h obj) xs"
  by (simp add: is_child_upd_refs cong: filter_cong)

lemma vlc_list_children_loop_result:
  assumes "\<forall>c\<in>set xs. \<exists>cp. heap s c = Some cp \<and> 0 < refs cp"
    and "mx \<le> length tab" and "distinct xs"
  shows "\<exists>s'. vlc_list_children_loop obj mx xs count tab s =
           Inr (count + length (filter (is_child (heap s) obj) xs),
                take count tab @ take (mx - count) (filter (is_child (heap s) obj) xs)
                  @ drop (count + length (take (mx - count) (filter (is_child (heap s) obj) xs))) tab,
                s')
         \<and> tree_list s' = tree_list s \<and> tree_lock s' = tree_lock s
         \<and> trace s' = trace s @ map FetchAdd (take (mx - count) (filter (is_child (heap s) obj) xs))
         \<and> (\<forall>c. heap s' c =
               (if c \<in> set (take (mx - count) (filter (is_child (heap s) obj) xs))
                then map_option inc_refs (heap s c) else heap s c))"
  using assms
proof (induction xs arbitrary: count tab s)
  case Nil
  then show ?case by simp
next
  case (Cons pos rest)
  from Cons.prems(1) obtain priv where priv: "heap s pos = Some priv" "0 < refs priv"
    by auto
  from Cons.prems(3) have notin: "pos \<notin> set rest" and drest: "distinct rest" by simp_all
  show ?case
  proof (cases "parent priv = Some obj")
    case False
    then have nochild: "\<not> is_child (heap s) obj pos"
      using priv by (simp add: is_child_def)
    have live: "\<forall>c\<in>set rest. \<exists>cp. heap s c = Some cp \<and> 0 < refs cp"
      using Cons.prems(1) by simp
    from Cons.IH [OF live Cons.prems(2) drest, of count]
    show ?thesis using priv False nochild by simp
  next
    case True
    then have child: "is_child (heap s) obj pos"
      using priv by (simp add: is_child_def)
    show ?thesis
    proof (cases "count < mx")
      case False
      have live: "\<forall>c\<in>set rest. \<exists>cp. heap s c = Some cp \<and> 0 < refs cp"
        using Cons.prems(1) by simp
      from False have z: "mx - count = 0" "mx - (count + 1) = 0" by simp_all
      from Cons.IH [OF live Cons.prems(2) drest, of "count + 1"]
      show ?thesis using priv True child False by (simp add: z)
    next
      case lt: True
      let ?s1 = "s\<lparr>heap := (heap s)(pos \<mapsto> priv\<lparr>refs := refs priv + 1\<rparr>),
                    trace := trace s @ [FetchAdd pos]\<rparr>"
      let ?tab1 = "tab[count := pos]"
      let ?kids = "filter (is_child (heap s) obj) rest"
      have hold: "vlc_object_hold pos s = Inr (pos, ?s1)"
        using priv by (simp add: vlc_object_hold_live)
      have lt_tab: "count < length tab" using lt Cons.prems(2) by simp
      have live1: "\<forall>c\<in>set rest. \<exists>cp. heap ?s1 c = Some cp \<and> 0 < refs cp"
        using Cons.prems(1) notin by auto
      have len1: "mx \<le> length ?tab1" using Cons.prems(2) by simp
      have kids1: "filter (is_child (heap ?s1) obj) rest = ?kids"
        using priv(1) by (simp add: filter_is_child_upd_refs)
      from Cons.IH [OF live1 len1 drest, of "count + 1"] obtain s' where
        run: "vlc_list_children_loop obj mx rest (count + 1) ?tab1 ?s1 =
           Inr (count + 1 + length ?kids,
                take (count + 1) ?tab1 @ take (mx - (count + 1)) ?kids
                  @ drop (count + 1 + length (take (mx - (count + 1)) ?kids)) ?tab1,
                s')"
        and tl: "tree_list s' = tree_list s" and lk: "tree_lock s' = tree_lock s"
        and tr: "trace s' = trace ?s1 @ map FetchAdd (take (mx - (count + 1)) ?kids)"
        and hp: "\<forall>c. heap s' c =
               (if c \<in> set (take (mx - (count + 1)) ?kids)
                then map_option inc_refs (heap ?s1 c) else heap ?s1 c)"
        unfolding kids1 by auto
      have step: "vlc_list_children_loop obj mx (pos # rest) count tab s =
          vlc_list_children_loop obj mx rest (count + 1) ?tab1 ?s1"
        using priv True lt lt_tab hold by simp
      have tk: "take (mx - count) (pos # ?kids) = pos # take (mx - (count + 1)) ?kids"
      proof -
        from lt have "mx - count = Suc (mx - (count + 1))" by simp
        then show ?thesis by (simp only: take_Suc_Cons)
      qed
      have t1: "take (count + 1) ?tab1 = take count tab @ [pos]"
        using lt_tab by (simp add: take_Suc_conv_app_nth)
      have pos_kids: "pos \<notin> set (take (mx - (count + 1)) ?kids)"
        using notin by (auto dest: in_set_takeD)
      have heap': "\<forall>c. heap s' c =
               (if c \<in> set (pos # take (mx - (count + 1)) ?kids)
                then map_option inc_refs (heap s c) else heap s c)"
        using hp pos_kids priv(1) by (auto simp: inc_refs_def)
      show ?thesis
        unfolding step run
        using tl lk tr heap' child t1 by (simp add: tk)
    qed
  qed
qed


definition hold_each :: "addr list \<Rightarrow> state \<Rightarrow> state" where
  "hold_each held s =
     s\<lparr>heap := (\<lambda>c. if c \<in> set held then map_option inc_refs (heap s c) else heap s c),
       trace := trace s @ map FetchAdd held\<rparr>"

lemma vlc_list_children_loop_eq:
  assumes "\<forall>c\<in>set xs. \<exists>cp. heap s c = Some cp \<and> 0 < refs cp"
    and "mx \<le> length tab" and "distinct xs"
  shows "vlc_list_children_loop obj mx xs 0 tab s =
           Inr (length (filter (is_child (heap s) obj) xs),
                take mx (filter (is_child (heap s) obj) xs)
                  @ drop (min mx (length (filter (is_child (heap s) obj) xs))) tab,
                hold_each (take mx (filter (is_child (heap s) obj) xs)) s)"
proof -
  let ?kids = "filter (is_child (heap s) obj) xs"
  from vlc_list_children_loop_result [OF assms, of obj 0] obtain s' where
    run: "vlc_list_children_loop obj mx xs 0 tab s =
       Inr (length ?kids, take mx ?kids @ drop (length (take mx ?kids)) tab, s')"
    and tl: "tree_list s' = tree_list s" and lk: "tree_lock s' = tree_lock s"
    and tr: "trace s' = trace s @ map FetchAdd (take mx ?kids)"
    and hp: "\<forall>c. heap s' c =
       (if c \<in> set (take mx ?kids) then map_option inc_refs (heap s c) else heap s c)"
    by auto
  from hp have "heap s' =
      (\<lambda>c. if c \<in> set (take mx ?kids) then map_option inc_refs (heap s c) else heap s c)"
    by (simp add: fun_eq_iff)
  with tl lk tr have "s' = hold_each (take mx ?kids) s"
    by (simp add: hold_each_def)
  with run show ?thesis by (simp add: min.commute)
qed

lemma vlc_list_children_run:
  assumes "\<not> tree_lock s"
    and "\<forall>c\<in>set (tree_list s). \<exists>cp. heap s c = Some cp \<and> 0 < refs cp"
    and "mx \<le> length tab" and "distinct (tree_list s)"
  shows "vlc_list_children obj tab mx s =
           Inr (length (children_of s obj),
                take mx (children_of s obj) @ drop (min mx (length (children_of s obj))) tab,
                s\<lparr>heap := (\<lambda>c. if c \<in> set (take mx (children_of s obj))
                                then map_option inc_refs (heap s c) else heap s c),
                  trace := trace s @ [MutexLock]
                           @ map FetchAdd (take mx (children_of s obj))
                           @ [MutexUnlock]\<rparr>)"
proof -
  let ?s1 = "emit MutexLock (s\<lparr>tree_lock := True\<rparr>)"
  have lock: "vlc_mutex_lock s = Inr ?s1"
    using assms(1) by (simp add: vlc_mutex_lock_def)
  have s1: "heap ?s1 = heap s" "tree_list ?s1 = tree_list s"
    by (simp_all add: emit_def)
  have live: "\<forall>c\<in>set (tree_list ?s1). \<exists>cp. heap ?s1 c = Some cp \<and> 0 < refs cp"
    using assms(2) unfolding s1 .
  have dist: "distinct (tree_list ?s1)" using assms(4) unfolding s1 .
  have loop: "vlc_list_children_loop obj mx (tree_list ?s1) 0 tab ?s1 =
      Inr (length (children_of s obj),
           take mx (children_of s obj) @ drop (min mx (length (children_of s obj))) tab,
           hold_each (take mx (children_of s obj)) ?s1)"
    using vlc_list_children_loop_eq [OF live assms(3) dist, of obj]
    unfolding s1 children_of_def .
  have fin: "vlc_mutex_unlock (hold_each (take mx (children_of s obj)) ?s1) =
      s\<lparr>heap := (\<lambda>c. if c \<in> set (take mx (children_of s obj))
                      then map_option inc_refs (heap s c) else heap s c),
        trace := trace s @ [MutexLock]
                 @ map FetchAdd (take mx (children_of s obj))
                 @ [MutexUnlock]\<rparr>"
    using assms(1) by (simp add: hold_each_def vlc_mutex_unlock_def emit_def cong: if_cong)
  show ?thesis
    unfolding vlc_list_children_def lock
    by (simp only: sum.case loop prod.case fin)
qed


text \<open>
  C8, as amended. Let the lock be free, every entry of the collection be live with a
  non-zero count and occur once, and the table have room for \<open>mx\<close> entries. Then
  \<^verbatim>\<open>vlc_list_children\<close> returns the number of all children of the object, also when
  it exceeds \<open>mx\<close>; the table holds the first \<open>mx\<close> children in its first places and
  is otherwise as the caller passed it; exactly those first \<open>mx\<close> children have their
  count raised by one, each between the taking and the releasing of the lock; the
  children past \<open>mx\<close> are counted and not held.
\<close>

theorem list_children_result:
  assumes "\<not> tree_lock s"
    and "\<forall>c\<in>set (tree_list s). \<exists>cp. heap s c = Some cp \<and> 0 < refs cp"
    and "mx \<le> length tab" and "distinct (tree_list s)"
  shows "vlc_list_children obj tab mx s =
           Inr (length (children_of s obj),
                take mx (children_of s obj) @ drop (min mx (length (children_of s obj))) tab,
                s\<lparr>heap := (\<lambda>c. if c \<in> set (take mx (children_of s obj))
                                then map_option inc_refs (heap s c) else heap s c),
                  trace := trace s @ [MutexLock]
                           @ map FetchAdd (take mx (children_of s obj))
                           @ [MutexUnlock]\<rparr>)"
  using assms by (rule vlc_list_children_run)

theorem list_children_result_witness:
  "\<not> tree_lock (ex_state 1 1) \<and> (2::nat) \<le> length [0, 0::nat]
   \<and> distinct (tree_list (ex_state 1 1))
   \<and> vlc_list_children 1 [0, 0] 2 (ex_state 1 1) =
       Inr (1, [2, 0],
            \<lparr>heap = [1 \<mapsto> ex_root 1, 2 \<mapsto> ex_child 1 2], tree_list = [2],
             tree_lock = False, trace = [MutexLock, FetchAdd 2, MutexUnlock]\<rparr>)"
  using list_children_result [of "ex_state 1 1" 2 "[0, 0]" 1]
  by (simp add: ex_state_def ex_child_def ex_root_def children_of_def is_child_def
      inc_refs_def fun_eq_iff)

text \<open>
  C8 as stated fails for a limit of 0 on the small tree: the child of the
  root is counted, and its reference count is what it was.
\<close>

theorem list_children_counterexample:
  "heap (ex_state 1 1) 2 = Some (ex_child 1 1) \<and> parent (ex_child 1 1) = Some 1
   \<and> vlc_list_children 1 [] 0 (ex_state 1 1) =
       Inr (1, [],
            \<lparr>heap = [1 \<mapsto> ex_root 1, 2 \<mapsto> ex_child 1 1], tree_list = [2],
             tree_lock = False, trace = [MutexLock, MutexUnlock]\<rparr>)"
  by (simp add: vlc_list_children_def vlc_mutex_lock_def vlc_mutex_unlock_def emit_def
      ex_state_def ex_child_def ex_root_def)


section \<open>The state between two calls\<close>

text \<open>
  The state between two calls: the lock is free; the collection lists each object
  with a parent once, and only live ones; the parent of a live object is live; no
  live object has a count of 0 or resources attached; and the count of an object is
  at least the number of its children, one reference for each.
\<close>

definition tree_inv :: "state \<Rightarrow> bool" where
  "tree_inv s \<longleftrightarrow>
     \<not> tree_lock s
   \<and> distinct (tree_list s)
   \<and> (\<forall>c\<in>set (tree_list s). \<exists>cp q. heap s c = Some cp \<and> parent cp = Some q)
   \<and> (\<forall>c cp q. heap s c = Some cp \<and> parent cp = Some q \<longrightarrow>
          c \<in> set (tree_list s) \<and> heap s q \<noteq> None)
   \<and> (\<forall>q qp. heap s q = Some qp \<longrightarrow>
          0 < refs qp \<and> resources qp = None \<and> length (children_of s q) \<le> unat (refs qp))"

lemma tree_invI:
  assumes "\<not> tree_lock s" and "distinct (tree_list s)"
    and "\<And>c. c \<in> set (tree_list s) \<Longrightarrow> \<exists>cp q. heap s c = Some cp \<and> parent cp = Some q"
    and "\<And>c cp q. heap s c = Some cp \<Longrightarrow> parent cp = Some q \<Longrightarrow>
           c \<in> set (tree_list s) \<and> heap s q \<noteq> None"
    and "\<And>q qp. heap s q = Some qp \<Longrightarrow>
           0 < refs qp \<and> resources qp = None \<and> length (children_of s q) \<le> unat (refs qp)"
  shows "tree_inv s"
  unfolding tree_inv_def using assms by blast

lemma tree_inv_lock: "tree_inv s \<Longrightarrow> \<not> tree_lock s"
  and tree_inv_distinct: "tree_inv s \<Longrightarrow> distinct (tree_list s)"
  and tree_inv_entry:
    "tree_inv s \<Longrightarrow> c \<in> set (tree_list s) \<Longrightarrow> \<exists>cp q. heap s c = Some cp \<and> parent cp = Some q"
  and tree_inv_child:
    "tree_inv s \<Longrightarrow> heap s c = Some cp \<Longrightarrow> parent cp = Some q \<Longrightarrow>
       c \<in> set (tree_list s) \<and> heap s q \<noteq> None"
  and tree_inv_count:
    "tree_inv s \<Longrightarrow> heap s q = Some qp \<Longrightarrow>
       0 < refs qp \<and> resources qp = None \<and> length (children_of s q) \<le> unat (refs qp)"
  unfolding tree_inv_def by blast+

lemma filter_is_child_cong:
  "(\<And>c. c \<in> set xs \<Longrightarrow> map_option parent (h' c) = map_option parent (h c)) \<Longrightarrow>
   filter (is_child h' q) xs = filter (is_child h q) xs"
proof -
  have alt: "is_child g q c \<longleftrightarrow> map_option parent (g c) = Some (Some q)" for g c
    by (simp add: is_child_def split: option.splits)
  assume "\<And>c. c \<in> set xs \<Longrightarrow> map_option parent (h' c) = map_option parent (h c)"
  then show ?thesis
    by (intro filter_cong [OF refl]) (simp add: alt)
qed

lemma unat_word_succ:
  fixes r :: "32 word"
  assumes "r \<noteq> - 1"
  shows "unat (r + 1) = Suc (unat r)"
proof -
  from assms have "r + 1 \<noteq> 0" by (simp add: eq_neg_iff_add_eq_0)
  then have "1 + r \<noteq> 0" by (simp add: add.commute)
  then have "unat (1 + r) = Suc (unat r)" by (rule unatSuc)
  then show ?thesis by (simp add: add.commute)
qed

lemma unat_word_pred:
  fixes r :: "32 word"
  assumes "1 < r"
  shows "unat (r - 1) = unat r - 1"
proof -
  from assms have "1 \<le> r" by simp
  then show ?thesis by (simp add: unat_sub)
qed

lemma tree_inv_update_refs:
  assumes inv: "tree_inv s" and live: "heap s p = Some priv"
    and pos: "0 < r" and cnt: "length (children_of s p) \<le> unat r"
  shows "tree_inv (s\<lparr>heap := (heap s)(p \<mapsto> priv\<lparr>refs := r\<rparr>), trace := tr\<rparr>)"
    (is "tree_inv ?s'")
proof (rule tree_invI)
  show "\<not> tree_lock ?s'" using tree_inv_lock [OF inv] by simp
  show "distinct (tree_list ?s')" using tree_inv_distinct [OF inv] by simp
  have kids: "children_of ?s' q = children_of s q" for q
    unfolding children_of_def using live
    by (simp add: filter_is_child_upd_refs)
  show "\<exists>cp q. heap ?s' c = Some cp \<and> parent cp = Some q" if "c \<in> set (tree_list ?s')" for c
    using that tree_inv_entry [OF inv, of c] live by auto
  show "c \<in> set (tree_list ?s') \<and> heap ?s' q \<noteq> None"
    if "heap ?s' c = Some cp" "parent cp = Some q" for c cp q
  proof (cases "c = p")
    case True
    with that live have "parent priv = Some q" by auto
    with tree_inv_child [OF inv live] True show ?thesis by auto
  next
    case False
    with that have "heap s c = Some cp" by simp
    with tree_inv_child [OF inv this that(2)] show ?thesis by auto
  qed
  show "0 < refs qp \<and> resources qp = None \<and> length (children_of ?s' q) \<le> unat (refs qp)"
    if "heap ?s' q = Some qp" for q qp
  proof (cases "q = p")
    case True
    with that have "qp = priv\<lparr>refs := r\<rparr>" by simp
    with True pos cnt tree_inv_count [OF inv live] show ?thesis by (simp add: kids)
  next
    case False
    with that have "heap s q = Some qp" by simp
    with tree_inv_count [OF inv this] show ?thesis by (simp add: kids)
  qed
qed

lemma tree_inv_hold:
  assumes inv: "tree_inv s" and live: "heap s p = Some priv" and nomax: "refs priv \<noteq> - 1"
  shows "\<exists>s'. vlc_object_hold p s = Inr (p, s') \<and> tree_inv s'"
proof -
  from tree_inv_count [OF inv live] have pos: "0 < refs priv"
    and cnt: "length (children_of s p) \<le> unat (refs priv)" by simp_all
  have "0 < unat (refs priv + 1)" using nomax by (simp add: unat_word_succ)
  then have "0 < refs priv + 1" by (simp add: word_less_nat_alt)
  moreover have "length (children_of s p) \<le> unat (refs priv + 1)"
    using cnt nomax by (simp add: unat_word_succ)
  ultimately have "tree_inv (s\<lparr>heap := (heap s)(p \<mapsto> priv\<lparr>refs := refs priv + 1\<rparr>),
      trace := trace s @ [FetchAdd p]\<rparr>)"
    by (rule tree_inv_update_refs [OF inv live])
  then show ?thesis using live pos by (simp add: vlc_object_hold_live)
qed


lemma children_after_free:
  assumes "distinct xs"
  shows "filter (is_child (h(p := None)) q) (remove1 p xs) =
         filter (\<lambda>x. x \<noteq> p) (filter (is_child h q) xs)"
proof -
  from assms have "remove1 p xs = filter (\<lambda>x. x \<noteq> p) xs"
    by (simp add: distinct_remove1_removeAll removeAll_filter_not_eq) metis
  moreover have "filter (is_child (h(p := None)) q) (filter (\<lambda>x. x \<noteq> p) xs) =
      filter (is_child h q) (filter (\<lambda>x. x \<noteq> p) xs)"
    by (rule filter_is_child_cong) simp
  ultimately show ?thesis by (simp add: conj_commute)
qed

lemma children_of_after_free:
  "distinct (tree_list s) \<Longrightarrow>
   children_of (s\<lparr>heap := (heap s)(p := None),
                  tree_list := remove1 p (tree_list s), trace := tr\<rparr>) q =
   filter (\<lambda>x. x \<noteq> p) (children_of s q)"
  unfolding children_of_def by (simp add: children_after_free del: filter_filter)

lemma no_child_of_childless:
  assumes inv: "tree_inv s" and none: "children_of s p = []"
    and c: "heap s c = Some cp"
  shows "parent cp \<noteq> Some p"
proof
  assume par: "parent cp = Some p"
  with tree_inv_child [OF inv c] have "c \<in> set (tree_list s)" by simp
  moreover from c par have "is_child (heap s) p c" by (simp add: is_child_def)
  ultimately have "c \<in> set (children_of s p)" by (simp add: children_of_def)
  with none show False by simp
qed

lemma tree_inv_free:
  assumes inv: "tree_inv s" and live: "heap s p = Some priv" and none: "children_of s p = []"
  shows "tree_inv (s\<lparr>heap := (heap s)(p := None),
                     tree_list := remove1 p (tree_list s), trace := tr\<rparr>)"
    (is "tree_inv ?s'")
proof (rule tree_invI)
  have dist: "distinct (tree_list s)" by (rule tree_inv_distinct [OF inv])
  show "\<not> tree_lock ?s'" using tree_inv_lock [OF inv] by simp
  show "distinct (tree_list ?s')" using dist by simp
  show "\<exists>cp q. heap ?s' c = Some cp \<and> parent cp = Some q" if "c \<in> set (tree_list ?s')" for c
  proof -
    from that dist have "c \<in> set (tree_list s)" "c \<noteq> p" by auto
    with tree_inv_entry [OF inv, of c] show ?thesis by simp
  qed
  show "c \<in> set (tree_list ?s') \<and> heap ?s' q \<noteq> None"
    if "heap ?s' c = Some cp" "parent cp = Some q" for c cp q
  proof -
    from that(1) have cp: "c \<noteq> p" "heap s c = Some cp" by (auto split: if_splits)
    from no_child_of_childless [OF inv none cp(2)] that(2) have "q \<noteq> p" by auto
    with tree_inv_child [OF inv cp(2) that(2)] cp(1) show ?thesis by simp
  qed
  show "0 < refs qp \<and> resources qp = None \<and> length (children_of ?s' q) \<le> unat (refs qp)"
    if "heap ?s' q = Some qp" for q qp
  proof -
    from that have q: "q \<noteq> p" "heap s q = Some qp" by (auto split: if_splits)
    have "length (children_of ?s' q) \<le> length (children_of s q)"
      unfolding children_of_after_free [OF dist] by (rule length_filter_le)
    with tree_inv_count [OF inv q(2)] show ?thesis by simp
  qed
qed

lemma children_of_parent_after_free:
  assumes inv: "tree_inv s" and live: "heap s p = Some priv" and par: "parent priv = Some q"
  shows "length (children_of (s\<lparr>heap := (heap s)(p := None),
                     tree_list := remove1 p (tree_list s), trace := tr\<rparr>) q)
         < length (children_of s q)"
proof -
  have dist: "distinct (tree_list s)" by (rule tree_inv_distinct [OF inv])
  from tree_inv_child [OF inv live par] have "p \<in> set (tree_list s)" by simp
  moreover from live par have "is_child (heap s) q p" by (simp add: is_child_def)
  ultimately have "p \<in> set (children_of s q)" by (simp add: children_of_def)
  then have "length (filter (\<lambda>x. x \<noteq> p) (children_of s q)) < length (children_of s q)"
    by (rule length_filter_less) simp
  then show ?thesis
    unfolding children_of_after_free [OF dist] .
qed

lemma scan_childless:
  assumes inv: "tree_inv s" and none: "children_of s p = []" and sub: "set xs \<subseteq> set (tree_list s)"
  shows "\<forall>c\<in>set xs. \<exists>cp. heap s c = Some cp \<and> parent cp \<noteq> Some p"
proof
  fix c assume "c \<in> set xs"
  with sub have "c \<in> set (tree_list s)" by auto
  from tree_inv_entry [OF inv this] obtain cp where cp: "heap s c = Some cp" by auto
  with no_child_of_childless [OF inv none cp] show "\<exists>cp. heap s c = Some cp \<and> parent cp \<noteq> Some p"
    by simp
qed

text \<open>
  A release of a reference that is there to be given back returns and keeps the invariant.
  The lemma carries two further properties through the recursion: \<open>Q p\<close>, which holds
  before a release of \<open>p\<close>, and \<open>P\<close>, which holds after it.  A decrement turns
  \<open>Q p\<close> into \<open>P\<close>, the freeing of a root does the same, and the freeing of a
  child of \<open>q\<close> turns \<open>Q p\<close> into \<open>Q q\<close>, for the release of the parent that
  follows.
\<close>

lemma release_keeps:
  fixes P :: "state \<Rightarrow> bool" and Q :: "addr \<Rightarrow> state \<Rightarrow> bool"
  assumes dec: "\<And>s p priv tr. tree_inv s \<Longrightarrow> Q p s \<Longrightarrow> heap s p = Some priv \<Longrightarrow>
      1 < refs priv \<Longrightarrow>
      P (s\<lparr>heap := (heap s)(p \<mapsto> priv\<lparr>refs := refs priv - 1\<rparr>), trace := tr\<rparr>)"
    and free_root: "\<And>s p priv tr. tree_inv s \<Longrightarrow> Q p s \<Longrightarrow> heap s p = Some priv \<Longrightarrow>
      refs priv = 1 \<Longrightarrow> parent priv = None \<Longrightarrow>
      P (s\<lparr>heap := (heap s)(p := None), tree_list := remove1 p (tree_list s), trace := tr\<rparr>)"
    and free_child: "\<And>s p priv q tr. tree_inv s \<Longrightarrow> Q p s \<Longrightarrow> heap s p = Some priv \<Longrightarrow>
      refs priv = 1 \<Longrightarrow> parent priv = Some q \<Longrightarrow>
      Q q (s\<lparr>heap := (heap s)(p := None), tree_list := remove1 p (tree_list s), trace := tr\<rparr>)"
  shows "tree_inv s \<Longrightarrow> Q p s \<Longrightarrow> heap s p = Some priv \<Longrightarrow>
         length (children_of s p) < unat (refs priv) \<Longrightarrow>
         \<exists>s'. vlc_object_release p s = Inr s' \<and> tree_inv s' \<and> P s'"
proof (induction "length (tree_list s)" arbitrary: s p priv rule: less_induct)
  case less
  note inv = less.prems(1) and Qs = less.prems(2) and live = less.prems(3)
    and spare = less.prems(4)
  show ?case
  proof (cases "1 < refs priv")
    case True
    then have "0 < refs priv - 1"
      by (simp add: word_less_nat_alt unat_word_pred)
    moreover have "length (children_of s p) \<le> unat (refs priv - 1)"
      using spare True by (simp add: unat_word_pred)
    ultimately have "tree_inv (s\<lparr>heap := (heap s)(p \<mapsto> priv\<lparr>refs := refs priv - 1\<rparr>),
        trace := trace s @ [CompareExchange p]\<rparr>)"
      by (rule tree_inv_update_refs [OF inv live])
    moreover have "P (s\<lparr>heap := (heap s)(p \<mapsto> priv\<lparr>refs := refs priv - 1\<rparr>),
        trace := trace s @ [CompareExchange p]\<rparr>)"
      by (rule dec [OF inv Qs live True])
    ultimately show ?thesis using live True by (simp add: vlc_object_release_fast)
  next
    case False
    from tree_inv_count [OF inv live] have pos: "0 < refs priv" and res: "resources priv = None"
      by simp_all
    from pos have "refs priv \<noteq> 0" by simp
    with False have one: "refs priv = 1" by (rule word_not_above_one)
    with spare have none: "children_of s p = []" by simp
    have unlocked: "\<not> tree_lock s" by (rule tree_inv_lock [OF inv])
    show ?thesis
    proof (cases "parent priv")
      case None
      have notin: "p \<notin> set (tree_list s)"
        using tree_inv_entry [OF inv, of p] live None by auto
      have scan: "ObjectHasChildLocked_loop (heap s) p (tree_list s) = Inr False"
        by (rule ObjectHasChildLocked_loop_none) (rule scan_childless [OF inv none subset_refl])
      let ?tr = "trace s @ [FetchSub p, MutexLock, MutexUnlock] @ destroy_events p priv"
      have run: "vlc_object_release p s = Inr (s\<lparr>heap := (heap s)(p := None), trace := ?tr\<rparr>)"
        using False one unlocked res scan
        by (simp add: vlc_object_release_root [OF live None])
      have "tree_inv (s\<lparr>heap := (heap s)(p := None),
          tree_list := remove1 p (tree_list s), trace := ?tr\<rparr>)"
        by (rule tree_inv_free [OF inv live none])
      moreover have "P (s\<lparr>heap := (heap s)(p := None),
          tree_list := remove1 p (tree_list s), trace := ?tr\<rparr>)"
        by (rule free_root [OF inv Qs live one None])
      moreover have "remove1 p (tree_list s) = tree_list s"
        using notin by (simp add: remove1_idem)
      ultimately have "tree_inv (s\<lparr>heap := (heap s)(p := None), trace := ?tr\<rparr>)"
        and "P (s\<lparr>heap := (heap s)(p := None), trace := ?tr\<rparr>)"
        by simp_all
      with run show ?thesis by simp
    next
      case (Some q)
      have mem: "p \<in> set (tree_list s)" and qlive: "heap s q \<noteq> None"
        using tree_inv_child [OF inv live Some] by simp_all
      have "q \<noteq> p" using no_child_of_childless [OF inv none live] Some by auto
      have scan: "ObjectHasChildLocked_loop (heap s) p (remove1 p (tree_list s)) = Inr False"
        by (rule ObjectHasChildLocked_loop_none)
          (rule scan_childless [OF inv none set_remove1_subset])
      let ?s6 = "s\<lparr>heap := (heap s)(p := None),
                    tree_list := remove1 p (tree_list s),
                    trace := trace s @ [MutexLock, FetchSub p, ListRemove p,
                                        MutexUnlock, MutexLock, MutexUnlock]
                             @ destroy_events p priv\<rparr>"
      have run: "vlc_object_release p s = vlc_object_release q ?s6"
        using False one unlocked res scan mem
        by (simp add: vlc_object_release_child [OF live Some])
      have inv6: "tree_inv ?s6" by (rule tree_inv_free [OF inv live none])
      have Q6: "Q q ?s6" by (rule free_child [OF inv Qs live one Some])
      from qlive obtain qp where qp: "heap s q = Some qp" by auto
      with \<open>q \<noteq> p\<close> have qp6: "heap ?s6 q = Some qp" by simp
      have "length (children_of ?s6 q) < length (children_of s q)"
        by (rule children_of_parent_after_free [OF inv live Some])
      also have "\<dots> \<le> unat (refs qp)" using tree_inv_count [OF inv qp] by simp
      finally have spare6: "length (children_of ?s6 q) < unat (refs qp)" .
      have "length (tree_list ?s6) < length (tree_list s)"
        using mem by (simp add: length_remove1) (cases "tree_list s", auto)
      from less.hyps [OF this inv6 Q6 qp6 spare6] run show ?thesis by simp
    qed
  qed
qed

lemma tree_inv_release:
  assumes "tree_inv s" and "heap s p = Some priv"
    and "length (children_of s p) < unat (refs priv)"
  shows "\<exists>s'. vlc_object_release p s = Inr s' \<and> tree_inv s'"
  using release_keeps [where Q = "\<lambda>_ _. True" and P = "\<lambda>_. True", OF _ _ _ assms(1) _ assms(2,3)] by simp

lemma fresh_not_listed:
  assumes "tree_inv s" and "heap s a = None"
  shows "a \<notin> set (tree_list s)"
  using tree_inv_entry [OF assms(1), of a] assms(2) by auto

lemma fresh_not_parent:
  assumes "tree_inv s" and "heap s a = None" and "c \<in> set (tree_list s)"
  shows "\<not> is_child (heap s) a c"
proof
  assume "is_child (heap s) a c"
  then obtain cp where "heap s c = Some cp" "parent cp = Some a"
    by (auto simp: is_child_def split: option.splits)
  from tree_inv_child [OF assms(1) this] assms(2) show False by simp
qed

lemma tree_inv_create_root:
  assumes inv: "tree_inv s" and fresh: "heap s a = None"
    and new: "parent priv = None" "refs priv = 1" "resources priv = None"
  shows "tree_inv (s\<lparr>heap := (heap s)(a \<mapsto> priv), trace := tr\<rparr>)" (is "tree_inv ?s'")
proof (rule tree_invI)
  have nl: "a \<notin> set (tree_list s)" by (rule fresh_not_listed [OF inv fresh])
  show "\<not> tree_lock ?s'" using tree_inv_lock [OF inv] by simp
  show "distinct (tree_list ?s')" using tree_inv_distinct [OF inv] by simp
  show "\<exists>cp q. heap ?s' c = Some cp \<and> parent cp = Some q" if "c \<in> set (tree_list ?s')" for c
    using that tree_inv_entry [OF inv, of c] nl by auto
  show "c \<in> set (tree_list ?s') \<and> heap ?s' q \<noteq> None"
    if "heap ?s' c = Some cp" "parent cp = Some q" for c cp q
  proof -
    from that new(1) have "c \<noteq> a" by auto
    with that have "heap s c = Some cp" by simp
    from tree_inv_child [OF inv this that(2)] show ?thesis by simp
  qed
  have same: "filter (is_child ((heap s)(a \<mapsto> priv)) q) (tree_list s) =
      filter (is_child (heap s) q) (tree_list s)" for q
    by (rule filter_is_child_cong) (use nl in auto)
  have kids: "children_of ?s' q = children_of s q" for q
    by (simp add: children_of_def same)
  have nokids: "children_of s a = []"
    using fresh_not_parent [OF inv fresh] by (simp add: children_of_def filter_empty_conv)
  show "0 < refs qp \<and> resources qp = None \<and> length (children_of ?s' q) \<le> unat (refs qp)"
    if "heap ?s' q = Some qp" for q qp
  proof (cases "q = a")
    case True
    with that have "qp = priv" by simp
    with True new nokids show ?thesis unfolding kids by simp
  next
    case False
    with that have "heap s q = Some qp" by simp
    from tree_inv_count [OF inv this] show ?thesis unfolding kids by simp
  qed
qed

lemma tree_inv_create_child:
  assumes inv: "tree_inv s" and fresh: "heap s a = None"
    and plive: "heap s p = Some ppriv" and nomax: "refs ppriv \<noteq> - 1"
    and new: "parent priv = Some p" "refs priv = 1" "resources priv = None"
  shows "tree_inv (s\<lparr>heap := (heap s)(a \<mapsto> priv, p \<mapsto> ppriv\<lparr>refs := refs ppriv + 1\<rparr>),
                     tree_list := tree_list s @ [a], trace := tr\<rparr>)" (is "tree_inv ?s'")
proof (rule tree_invI)
  have nl: "a \<notin> set (tree_list s)" by (rule fresh_not_listed [OF inv fresh])
  have pa: "p \<noteq> a" using fresh plive by auto
  have par': "map_option parent (heap ?s' c) = map_option parent (heap s c)" if "c \<noteq> a" for c
    using that plive by simp
  show "\<not> tree_lock ?s'" using tree_inv_lock [OF inv] by simp
  show "distinct (tree_list ?s')" using tree_inv_distinct [OF inv] nl by simp
  show "\<exists>cp q. heap ?s' c = Some cp \<and> parent cp = Some q" if "c \<in> set (tree_list ?s')" for c
  proof (cases "c = a")
    case True
    with pa new show ?thesis by simp
  next
    case False
    with that have "c \<in> set (tree_list s)" by simp
    from tree_inv_entry [OF inv this] obtain cp q where "heap s c = Some cp" "parent cp = Some q"
      by auto
    with False plive show ?thesis by (cases "c = p") auto
  qed
  show "c \<in> set (tree_list ?s') \<and> heap ?s' q \<noteq> None"
    if "heap ?s' c = Some cp" "parent cp = Some q" for c cp q
  proof (cases "c = a")
    case True
    with that pa new have "q = p" by simp
    with True show ?thesis by simp
  next
    case False
    with par' [OF False] that obtain cp0 where "heap s c = Some cp0" "parent cp0 = Some q"
      by (cases "heap s c") auto
    from tree_inv_child [OF inv this] show ?thesis by auto
  qed
  have same: "filter (is_child ((heap s)(a \<mapsto> priv, p \<mapsto> ppriv\<lparr>refs := refs ppriv + 1\<rparr>)) q)
        (tree_list s) =
      filter (is_child (heap s) q) (tree_list s)" for q
  proof (rule filter_is_child_cong)
    fix c assume "c \<in> set (tree_list s)"
    with nl have "c \<noteq> a" by auto
    from par' [OF this]
    show "map_option parent (((heap s)(a \<mapsto> priv, p \<mapsto> ppriv\<lparr>refs := refs ppriv + 1\<rparr>)) c) =
        map_option parent (heap s c)" by simp
  qed
  have kids: "children_of ?s' q = children_of s q @ (if q = p then [a] else [])" for q
    using pa new by (simp add: children_of_def same is_child_def)
  have nokids: "children_of s a = []"
    using fresh_not_parent [OF inv fresh] by (simp add: children_of_def filter_empty_conv)
  show "0 < refs qp \<and> resources qp = None \<and> length (children_of ?s' q) \<le> unat (refs qp)"
    if "heap ?s' q = Some qp" for q qp
  proof -
    consider "q = a" | "q = p" | "q \<noteq> a" "q \<noteq> p" by blast
    then show ?thesis
    proof cases
      case 1
      with that pa have "qp = priv" by simp
      with 1 new pa nokids show ?thesis unfolding kids by simp
    next
      case 2
      with that have qp: "qp = ppriv\<lparr>refs := refs ppriv + 1\<rparr>" by simp
      from tree_inv_count [OF inv plive] have "resources ppriv = None"
        and "length (children_of s p) \<le> unat (refs ppriv)" by simp_all
      moreover have "0 < unat (refs ppriv + 1)" using nomax by (simp add: unat_word_succ)
      then have "0 < refs ppriv + 1" by (simp add: word_less_nat_alt)
      ultimately show ?thesis using 2 qp nomax unfolding kids by (simp add: unat_word_succ)
    next
      case 3
      with that have "heap s q = Some qp" by simp
      from tree_inv_count [OF inv this] 3 show ?thesis unfolding kids by simp
    qed
  qed
qed

lemma tree_inv_set_destructor:
  assumes inv: "tree_inv s" and run: "vlc_object_set_destructor p pf s = Inr s'"
  shows "tree_inv s'"
proof -
  from run obtain priv where live: "heap s p = Some priv"
    and s': "s' = s\<lparr>heap := (heap s)(p \<mapsto> priv\<lparr>pf_destructor := pf\<rparr>)\<rparr>"
    by (auto simp: vlc_object_set_destructor_def split: option.splits)
  have par': "map_option parent (heap s' c) = map_option parent (heap s c)" for c
    using live by (simp add: s')
  have "filter (is_child (heap s') q) (tree_list s) = filter (is_child (heap s) q) (tree_list s)"
    for q
    by (rule filter_is_child_cong) (rule par')
  moreover have "tree_list s' = tree_list s" by (simp add: s')
  ultimately have kids: "children_of s' q = children_of s q" for q
    by (simp only: children_of_def)
  show ?thesis
  proof (rule tree_invI)
    show "\<not> tree_lock s'" using tree_inv_lock [OF inv] by (simp add: s')
    show "distinct (tree_list s')" using tree_inv_distinct [OF inv] by (simp add: s')
    show "\<exists>cp q. heap s' c = Some cp \<and> parent cp = Some q" if "c \<in> set (tree_list s')" for c
      using that tree_inv_entry [OF inv, of c] live by (auto simp: s')
    show "c \<in> set (tree_list s') \<and> heap s' q \<noteq> None"
      if "heap s' c = Some cp" "parent cp = Some q" for c cp q
    proof -
      from par' [of c] that obtain cp0 where "heap s c = Some cp0" "parent cp0 = Some q"
        by (cases "heap s c") auto
      from tree_inv_child [OF inv this] show ?thesis by (auto simp: s')
    qed
    show "0 < refs qp \<and> resources qp = None \<and> length (children_of s' q) \<le> unat (refs qp)"
      if "heap s' q = Some qp" for q qp
    proof (cases "q = p")
      case True
      with that have "qp = priv\<lparr>pf_destructor := pf\<rparr>" by (simp add: s')
      with tree_inv_count [OF inv live] True show ?thesis by (simp add: kids)
    next
      case False
      with that have "heap s q = Some qp" by (simp add: s')
      from tree_inv_count [OF inv this] show ?thesis by (simp add: kids)
    qed
  qed
qed


section \<open>Pointer validation\<close>

text \<open>
  The members of the tree rooted at \<open>root\<close>: the root, and every entry of the
  collection whose parent is a member.
\<close>

inductive in_tree :: "state \<Rightarrow> addr \<Rightarrow> addr \<Rightarrow> bool" for s root where
  in_tree_root: "in_tree s root root"
| in_tree_child:
    "in_tree s root y \<Longrightarrow> c \<in> set (tree_list s) \<Longrightarrow> is_child (heap s) y c \<Longrightarrow>
     in_tree s root c"

text \<open>
  The collection is in creation order: no entry is the parent of itself or of an
  entry before it, and every entry is live. \<^verbatim>\<open>vlc_custom_create\<close> appends a child
  after its parent exists, so the walk of \<^verbatim>\<open>ObjectExists\<close> only moves towards the
  end of the collection, and a depth of one more than its length is enough. Every
  state reached by the calls of the file is in this order
  (\<open>reachable_creation_order\<close> below).
\<close>

fun parents_first :: "(addr \<Rightarrow> vlc_object_internals option) \<Rightarrow> addr list \<Rightarrow> bool" where
  "parents_first h [] = True"
| "parents_first h (c # cs) =
     ((case h c of
         None \<Rightarrow> False
       | Some cp \<Rightarrow> (case parent cp of None \<Rightarrow> True | Some q \<Rightarrow> q \<notin> set (c # cs)))
      \<and> parents_first h cs)"

fun rank :: "addr \<Rightarrow> addr list \<Rightarrow> nat" where
  "rank r [] = 0"
| "rank r (c # cs) = (if c = r then Suc (length cs) else rank r cs)"

definition depth_bound :: "addr list \<Rightarrow> addr \<Rightarrow> nat" where
  "depth_bound xs r = (if r \<in> set xs then rank r xs else Suc (length xs))"

lemma rank_le: "rank r xs \<le> length xs"
  by (induction xs) auto

lemma rank_pos: "r \<in> set xs \<Longrightarrow> 0 < rank r xs"
  by (induction xs) auto

lemma parents_first_live: "parents_first h xs \<Longrightarrow> c \<in> set xs \<Longrightarrow> h c \<noteq> None"
  by (induction xs) (auto split: option.splits)

lemma rank_child:
  "parents_first h xs \<Longrightarrow> c \<in> set xs \<Longrightarrow> is_child h r c \<Longrightarrow> r \<in> set xs \<Longrightarrow>
   rank c xs < rank r xs"
proof (induction xs)
  case Nil
  then show ?case by simp
next
  case (Cons y ys)
  show ?case
  proof (cases "c = y")
    case True
    with Cons.prems(1,3) have "r \<notin> set (y # ys)"
      by (auto simp: is_child_def split: option.splits)
    with Cons.prems(4) show ?thesis by simp
  next
    case False
    with Cons.prems(2) have c: "c \<in> set ys" by simp
    show ?thesis
    proof (cases "r = y")
      case True
      with False rank_le [of c ys] show ?thesis by simp
    next
      case r: False
      with Cons.prems(4) have "r \<in> set ys" by simp
      with Cons.IH c Cons.prems(1,3) False r show ?thesis by simp
    qed
  qed
qed

lemma depth_bound_child:
  assumes "parents_first h xs" and "c \<in> set xs" and "is_child h r c"
  shows "depth_bound xs c < depth_bound xs r"
proof (cases "r \<in> set xs")
  case True
  with rank_child [OF assms True] assms(2) show ?thesis by (simp add: depth_bound_def)
next
  case False
  with assms(2) rank_le [of c xs] show ?thesis by (simp add: depth_bound_def)
qed

lemma depth_bound_le: "depth_bound xs r \<le> Suc (length xs)"
  using rank_le [of r xs] by (simp add: depth_bound_def)

lemma in_tree_step:
  "in_tree s r x \<longleftrightarrow> r = x \<or> (\<exists>c\<in>set (tree_list s). is_child (heap s) r c \<and> in_tree s c x)"
proof
  assume "in_tree s r x"
  then show "r = x \<or> (\<exists>c\<in>set (tree_list s). is_child (heap s) r c \<and> in_tree s c x)"
  proof (induction rule: in_tree.induct)
    case in_tree_root
    show ?case by simp
  next
    case (in_tree_child y c)
    from in_tree_child.IH show ?case
    proof
      assume "r = y"
      with in_tree_child.hyps(2,3) in_tree_root [of s c] show ?thesis by blast
    next
      assume "\<exists>d\<in>set (tree_list s). is_child (heap s) r d \<and> in_tree s d y"
      then obtain d where "d \<in> set (tree_list s)" "is_child (heap s) r d" "in_tree s d y"
        by blast
      with in_tree_child.hyps(2,3) show ?thesis
        by (blast intro: in_tree.in_tree_child)
    qed
  qed
next
  assume "r = x \<or> (\<exists>c\<in>set (tree_list s). is_child (heap s) r c \<and> in_tree s c x)"
  then show "in_tree s r x"
  proof
    assume "r = x"
    then show ?thesis by (simp add: in_tree_root)
  next
    assume "\<exists>c\<in>set (tree_list s). is_child (heap s) r c \<and> in_tree s c x"
    then obtain c where c: "c \<in> set (tree_list s)" "is_child (heap s) r c" and t: "in_tree s c x"
      by blast
    from t show ?thesis
    proof (induction rule: in_tree.induct)
      case in_tree_root
      from in_tree.in_tree_child [OF in_tree.in_tree_root c] show ?case .
    next
      case (in_tree_child y d)
      then show ?case by (blast intro: in_tree.in_tree_child)
    qed
  qed
qed


text \<open>What \<^verbatim>\<open>ObjectExists\<close> returns where it finds the candidate.\<close>

definition hold_result :: "addr \<Rightarrow> state \<Rightarrow> error + (pointer \<times> state)" where
  "hold_result x s =
     (case vlc_object_hold x s of
        Inl e \<Rightarrow> Inl e
      | Inr (h, s1) \<Rightarrow> Inr (Some h, s1))"

lemma hold_result_not_null: "hold_result x s \<noteq> Inr (None, s')"
  by (simp add: hold_result_def split: sum.splits prod.splits)

lemma ObjectExists_children_scan:
  assumes "\<And>c. c \<in> set ys \<Longrightarrow> heap s c \<noteq> None"
    and "\<And>c. c \<in> set ys \<Longrightarrow> is_child (heap s) r c \<Longrightarrow>
           ObjectExists n c obj s = Some (if P c then hold_result x s else Inr (None, s))"
  shows "ObjectExists_children n ys r obj s =
           Some (if \<exists>c\<in>set ys. is_child (heap s) r c \<and> P c
                 then hold_result x s else Inr (None, s))"
  using assms
proof (induction ys)
  case Nil
  show ?case by simp
next
  case (Cons pos rest)
  from Cons.prems(1) [of pos] obtain priv where priv: "heap s pos = Some priv" by auto
  have IH: "ObjectExists_children n rest r obj s =
      Some (if \<exists>c\<in>set rest. is_child (heap s) r c \<and> P c
            then hold_result x s else Inr (None, s))"
    by (rule Cons.IH) (simp_all add: Cons.prems)
  show ?case
  proof (cases "parent priv = Some r")
    case False
    then have "\<not> is_child (heap s) r pos" using priv by (simp add: is_child_def)
    with False priv IH show ?thesis by simp
  next
    case True
    then have child: "is_child (heap s) r pos" using priv by (simp add: is_child_def)
    from Cons.prems(2) [OF _ child]
    have rec: "ObjectExists n pos obj s = Some (if P pos then hold_result x s else Inr (None, s))"
      by simp
    show ?thesis
    proof (cases "P pos")
      case False
      with rec priv True IH child show ?thesis by simp
    next
      case found: True
      with rec have rec': "ObjectExists n pos obj s = Some (hold_result x s)" by simp
      have "(case Some (hold_result x s) of
               None \<Rightarrow> None
             | Some (Inl e) \<Rightarrow> Some (Inl e)
             | Some (Inr (Some ret, s1)) \<Rightarrow> Some (Inr (Some ret, s1))
             | Some (Inr (None, s1)) \<Rightarrow> ObjectExists_children n rest r obj s1) =
          Some (hold_result x s)"
        using hold_result_not_null [of x s]
        by (auto split: sum.splits option.splits)
      with priv True rec' child found show ?thesis by simp
    qed
  qed
qed

lemma ObjectExists_walk:
  assumes locked: "tree_lock s" and pf: "parents_first (heap s) (tree_list s)"
  shows "depth_bound (tree_list s) r \<le> n \<Longrightarrow>
         ObjectExists n r (Some x) s =
           Some (if in_tree s r x then hold_result x s else Inr (None, s))"
proof (induction n arbitrary: r)
  case 0
  have "0 < depth_bound (tree_list s) r"
    by (simp add: depth_bound_def rank_pos)
  with 0 show ?case by simp
next
  case (Suc n)
  show ?case
  proof (cases "r = x")
    case True
    then show ?thesis by (simp add: in_tree_root hold_result_def)
  next
    case False
    have scan: "ObjectExists_children n (tree_list s) r (Some x) s =
        Some (if \<exists>c\<in>set (tree_list s). is_child (heap s) r c \<and> in_tree s c x
              then hold_result x s else Inr (None, s))"
    proof (rule ObjectExists_children_scan)
      fix c assume "c \<in> set (tree_list s)"
      then show "heap s c \<noteq> None" by (rule parents_first_live [OF pf])
    next
      fix c assume c: "c \<in> set (tree_list s)" "is_child (heap s) r c"
      from depth_bound_child [OF pf c] Suc.prems have "depth_bound (tree_list s) c \<le> n"
        by simp
      then show "ObjectExists n c (Some x) s =
          Some (if in_tree s c x then hold_result x s else Inr (None, s))"
        by (rule Suc.IH)
    qed
    have "in_tree s r x \<longleftrightarrow> (\<exists>c\<in>set (tree_list s). is_child (heap s) r c \<and> in_tree s c x)"
      using False in_tree_step [of s r x] by simp
    with scan False locked show ?thesis by simp
  qed
qed

lemma ObjectExists_null:
  assumes locked: "tree_lock s" and pf: "parents_first (heap s) (tree_list s)"
  shows "depth_bound (tree_list s) r \<le> n \<Longrightarrow> ObjectExists n r None s = Some (Inr (None, s))"
proof (induction n arbitrary: r)
  case 0
  have "0 < depth_bound (tree_list s) r"
    by (simp add: depth_bound_def rank_pos)
  with 0 show ?case by simp
next
  case (Suc n)
  have "ObjectExists_children n (tree_list s) r None s =
      Some (if \<exists>c\<in>set (tree_list s). is_child (heap s) r c \<and> False
            then hold_result r s else Inr (None, s))"
  proof (rule ObjectExists_children_scan)
    fix c assume "c \<in> set (tree_list s)"
    then show "heap s c \<noteq> None" by (rule parents_first_live [OF pf])
  next
    fix c assume c: "c \<in> set (tree_list s)" "is_child (heap s) r c"
    from depth_bound_child [OF pf c] Suc.prems have "depth_bound (tree_list s) c \<le> n"
      by simp
    then show "ObjectExists n c None s = Some (if False then hold_result r s else Inr (None, s))"
      using Suc.IH by simp
  qed
  with locked show ?case by simp
qed


lemma in_tree_live:
  assumes "in_tree s root x" and "heap s root \<noteq> None"
  shows "heap s x \<noteq> None"
  using assms by (induction rule: in_tree.induct) (auto simp: is_child_def split: option.splits)

text \<open>
  C6. Let the lock be held, the collection be in creation order, and the depth
  allowed exceed the length of the collection. Then \<^verbatim>\<open>ObjectExists\<close> returns. For a
  candidate that is a member of the tree rooted at \<open>root\<close>, live with a non-zero
  count, it returns the candidate and the only change is that the candidate's count
  is one more. For a candidate that is not a member it returns \<^verbatim>\<open>NULL\<close> and changes
  nothing; so it does for the address of a block that was freed, and for \<^verbatim>\<open>NULL\<close>.
\<close>

theorem object_exists_validates:
  assumes "tree_lock s" and "parents_first (heap s) (tree_list s)"
    and "length (tree_list s) < fuel"
  shows "(in_tree s root x \<and> heap s x = Some xp \<and> 0 < refs xp \<longrightarrow>
            ObjectExists fuel root (Some x) s =
              Some (Inr (Some x, s\<lparr>heap := (heap s)(x \<mapsto> xp\<lparr>refs := refs xp + 1\<rparr>),
                                    trace := trace s @ [FetchAdd x]\<rparr>)))
       \<and> (\<not> in_tree s root x \<longrightarrow>
            ObjectExists fuel root (Some x) s = Some (Inr (None, s)))
       \<and> (heap s root \<noteq> None \<and> heap s x = None \<longrightarrow>
            ObjectExists fuel root (Some x) s = Some (Inr (None, s)))
       \<and> ObjectExists fuel root None s = Some (Inr (None, s))"
proof -
  from assms(3) depth_bound_le [of "tree_list s" root]
  have fuel: "depth_bound (tree_list s) root \<le> fuel" by simp
  have walk: "ObjectExists fuel root (Some x) s =
      Some (if in_tree s root x then hold_result x s else Inr (None, s))"
    by (rule ObjectExists_walk [OF assms(1,2) fuel])
  have found: "hold_result x s =
      Inr (Some x, s\<lparr>heap := (heap s)(x \<mapsto> xp\<lparr>refs := refs xp + 1\<rparr>),
                      trace := trace s @ [FetchAdd x]\<rparr>)"
    if "heap s x = Some xp" "0 < refs xp"
    using that by (simp add: hold_result_def vlc_object_hold_live)
  have gone: "\<not> in_tree s root x" if "heap s root \<noteq> None" "heap s x = None"
    using in_tree_live [of s root x] that by auto
  show ?thesis
    using walk found gone ObjectExists_null [OF assms(1,2) fuel] by auto
qed

text \<open>The small tree while the lock is held.\<close>

definition ex_locked :: state where
  "ex_locked = (ex_state 1 1)\<lparr>tree_lock := True, trace := [MutexLock]\<rparr>"

lemma ex_locked_in_tree: "in_tree ex_locked 1 2"
  by (rule in_tree_child [OF in_tree_root])
    (simp_all add: ex_locked_def ex_state_def ex_child_def is_child_def)

theorem object_exists_validates_witness:
  "tree_lock ex_locked \<and> parents_first (heap ex_locked) (tree_list ex_locked)
   \<and> length (tree_list ex_locked) < 2
   \<and> in_tree ex_locked 1 2 \<and> heap ex_locked 2 = Some (ex_child 1 1) \<and> 0 < refs (ex_child 1 1)
   \<and> ObjectExists 2 1 (Some 2) ex_locked =
       Some (Inr (Some 2,
                  \<lparr>heap = [1 \<mapsto> ex_root 1, 2 \<mapsto> ex_child 1 2], tree_list = [2],
                   tree_lock = True, trace = [MutexLock, FetchAdd 2]\<rparr>))
   \<and> heap ex_locked 1 = Some (ex_root 1) \<and> heap ex_locked 3 = None
   \<and> ObjectExists 2 1 (Some 3) ex_locked = Some (Inr (None, ex_locked))"
  using object_exists_validates [of ex_locked 2 1 2 "ex_child 1 1"]
    object_exists_validates [of ex_locked 2 1 3] ex_locked_in_tree
  by (simp add: ex_locked_def ex_state_def ex_child_def ex_root_def fun_eq_iff)


section \<open>The vars command\<close>

lemma in_tree_same:
  assumes "heap s' = heap s" and "tree_list s' = tree_list s" and "in_tree s r x"
  shows "in_tree s' r x"
  using assms(3)
proof (induction rule: in_tree.induct)
  case in_tree_root
  show ?case by (rule in_tree.in_tree_root)
next
  case (in_tree_child y c)
  with assms(1,2) show ?case by (auto intro: in_tree.in_tree_child)
qed

lemma ObjectExists_after_lock:
  assumes unlocked: "\<not> tree_lock s" and pf: "parents_first (heap s) (tree_list s)"
    and fuel: "length (tree_list s) < fuel"
  shows "ObjectExists fuel obj (Some x) (emit MutexLock (s\<lparr>tree_lock := True\<rparr>)) =
           Some (if in_tree s obj x
                 then hold_result x (emit MutexLock (s\<lparr>tree_lock := True\<rparr>))
                 else Inr (None, emit MutexLock (s\<lparr>tree_lock := True\<rparr>)))"
    (is "ObjectExists fuel obj (Some x) ?s1 = _")
  and "ObjectExists fuel obj None (emit MutexLock (s\<lparr>tree_lock := True\<rparr>)) =
           Some (Inr (None, emit MutexLock (s\<lparr>tree_lock := True\<rparr>)))"
proof -
  have s1: "heap ?s1 = heap s" "tree_list ?s1 = tree_list s" "tree_lock ?s1"
    by (simp_all add: emit_def)
  have pf1: "parents_first (heap ?s1) (tree_list ?s1)" using pf by (simp only: s1)
  have bound: "depth_bound (tree_list ?s1) obj \<le> fuel"
    using fuel depth_bound_le [of "tree_list s" obj] by (simp only: s1)
  have "in_tree ?s1 obj x \<longleftrightarrow> in_tree s obj x"
    using in_tree_same [of ?s1 s obj x] in_tree_same [of s ?s1 obj x] s1 by auto
  with ObjectExists_walk [OF s1(3) pf1 bound, of x]
  show "ObjectExists fuel obj (Some x) ?s1 =
      Some (if in_tree s obj x then hold_result x ?s1 else Inr (None, ?s1))"
    by simp
  show "ObjectExists fuel obj None ?s1 = Some (Inr (None, ?s1))"
    by (rule ObjectExists_null [OF s1(3) pf1 bound])
qed

lemma VarsCommand_no_match:
  assumes unlocked: "\<not> tree_lock s" and pf: "parents_first (heap s) (tree_list s)"
    and fuel: "length (tree_list s) < fuel"
    and scan: "sscanf_p str = Some p"
    and miss: "p = None \<or> (\<exists>x. p = Some x \<and> \<not> in_tree s obj x)"
  shows "VarsCommand sscanf_p fuel obj str s =
           Some (Inr (VLC_ENOOBJ,
                      s\<lparr>trace := trace s @ [MutexLock, MutexUnlock,
                                            MsgErr obj (''no such object: '' @ str)]\<rparr>))"
proof -
  let ?s1 = "emit MutexLock (s\<lparr>tree_lock := True\<rparr>)"
  have lock: "vlc_mutex_lock s = Inr ?s1" using unlocked by (simp add: vlc_mutex_lock_def)
  have ex: "ObjectExists fuel obj p ?s1 = Some (Inr (None, ?s1))"
    using miss ObjectExists_after_lock [OF unlocked pf fuel, of obj] by auto
  have fin: "emit (MsgErr obj (''no such object: '' @ str)) (vlc_mutex_unlock ?s1) =
      s\<lparr>trace := trace s @ [MutexLock, MutexUnlock, MsgErr obj (''no such object: '' @ str)]\<rparr>"
    using unlocked by (simp add: emit_def vlc_mutex_unlock_def)
  show ?thesis
    unfolding VarsCommand_def scan lock
    by (simp only: option.case sum.case ex prod.case Let_def fin)
qed

lemma VarsCommand_match:
  assumes unlocked: "\<not> tree_lock s" and pf: "parents_first (heap s) (tree_list s)"
    and fuel: "length (tree_list s) < fuel"
    and scan: "sscanf_p str = Some (Some x)"
    and hit: "in_tree s obj x" and live: "heap s x = Some xp"
    and pos: "0 < refs xp" and nomax: "refs xp \<noteq> - 1"
  shows "VarsCommand sscanf_p fuel obj str s =
           Some (Inr (VLC_SUCCESS,
                      s\<lparr>trace := trace s @ [MutexLock, FetchAdd x, MutexUnlock,
                                            PrintVarsHeader x (typename xp) (parent xp),
                                            DumpVariables x, CompareExchange x]\<rparr>))"
proof -
  let ?s1 = "emit MutexLock (s\<lparr>tree_lock := True\<rparr>)"
  let ?xp' = "xp\<lparr>refs := refs xp + 1\<rparr>"
  let ?s2 = "?s1\<lparr>heap := (heap ?s1)(x \<mapsto> ?xp'), trace := trace ?s1 @ [FetchAdd x]\<rparr>"
  let ?s3 = "vlc_mutex_unlock ?s2"
  let ?s5 = "emit (DumpVariables x) (emit (PrintVarsHeader x (typename ?xp') (parent ?xp')) ?s3)"
  have lock: "vlc_mutex_lock s = Inr ?s1" using unlocked by (simp add: vlc_mutex_lock_def)
  have live1: "heap ?s1 x = Some xp" using live by (simp add: emit_def)
  have hold: "hold_result x ?s1 = Inr (Some x, ?s2)"
    using pos by (simp add: hold_result_def vlc_object_hold_live [OF live1])
  have ex: "ObjectExists fuel obj (Some x) ?s1 = Some (Inr (Some x, ?s2))"
    using hit hold ObjectExists_after_lock(1) [OF unlocked pf fuel, of obj x] by simp
  have live3: "heap ?s3 x = Some ?xp'" by (simp add: vlc_mutex_unlock_def emit_def)
  have live5: "heap ?s5 x = Some ?xp'" by (simp add: vlc_mutex_unlock_def emit_def)
  have "0 < unat (refs xp)" using pos by (simp add: word_less_nat_alt)
  then have "1 < unat (refs xp + 1)" using nomax by (simp add: unat_word_succ)
  then have above: "1 < refs ?xp'" by (simp add: word_less_nat_alt)
  have rel: "vlc_object_release x ?s5 =
      Inr (?s5\<lparr>heap := (heap ?s5)(x \<mapsto> ?xp'\<lparr>refs := refs ?xp' - 1\<rparr>),
                trace := trace ?s5 @ [CompareExchange x]\<rparr>)"
    by (rule vlc_object_release_fast [OF live5 above])
  have idem: "(heap s)(x \<mapsto> xp) = heap s" using live by (simp add: fun_upd_idem)
  have fin: "?s5\<lparr>heap := (heap ?s5)(x \<mapsto> ?xp'\<lparr>refs := refs ?xp' - 1\<rparr>),
                 trace := trace ?s5 @ [CompareExchange x]\<rparr> =
      s\<lparr>trace := trace s @ [MutexLock, FetchAdd x, MutexUnlock,
                            PrintVarsHeader x (typename xp) (parent xp),
                            DumpVariables x, CompareExchange x]\<rparr>"
    using unlocked idem by (simp add: emit_def vlc_mutex_unlock_def)
  have dump: "VarsCommand_dump x ?s3 =
      Some (Inr (VLC_SUCCESS,
                 s\<lparr>trace := trace s @ [MutexLock, FetchAdd x, MutexUnlock,
                                       PrintVarsHeader x (typename xp) (parent xp),
                                       DumpVariables x, CompareExchange x]\<rparr>))"
    unfolding VarsCommand_dump_def live3
    by (simp only: option.case Let_def rel sum.case fin)
  show ?thesis
    unfolding VarsCommand_def scan lock
    by (simp only: option.case sum.case ex prod.case Let_def dump)
qed


text \<open>
  C10. Let the lock be free, the collection be in creation order and the depth
  allowed exceed its length. When the text yields a pointer that is \<^verbatim>\<open>NULL\<close> or not
  a member of the tree under the object the command runs on, \<^verbatim>\<open>VarsCommand\<close> returns
  \<^verbatim>\<open>VLC_ENOOBJ\<close>, which is not \<^verbatim>\<open>VLC_SUCCESS\<close>; it has taken and released the lock
  and logged the error, and the heap and the collection are as before. When the
  pointer is a member, live, with a count above 0 and below the 32-bit maximum, the
  command returns \<^verbatim>\<open>VLC_SUCCESS\<close>: the candidate is held under the lock, the header
  line and the variables are printed, and then the reference is released; the heap
  and the collection end as they began.
\<close>

theorem vars_command_result:
  assumes "\<not> tree_lock s" and "parents_first (heap s) (tree_list s)"
    and "length (tree_list s) < fuel"
  shows "(sscanf_p str = Some p \<and> (p = None \<or> (\<exists>x. p = Some x \<and> \<not> in_tree s obj x)) \<longrightarrow>
            VarsCommand sscanf_p fuel obj str s =
              Some (Inr (VLC_ENOOBJ,
                         s\<lparr>trace := trace s @ [MutexLock, MutexUnlock,
                                               MsgErr obj (''no such object: '' @ str)]\<rparr>)))
       \<and> (sscanf_p str = Some (Some x) \<and> in_tree s obj x \<and> heap s x = Some xp
            \<and> 0 < refs xp \<and> refs xp \<noteq> - 1 \<longrightarrow>
            VarsCommand sscanf_p fuel obj str s =
              Some (Inr (VLC_SUCCESS,
                         s\<lparr>trace := trace s @ [MutexLock, FetchAdd x, MutexUnlock,
                                               PrintVarsHeader x (typename xp) (parent xp),
                                               DumpVariables x, CompareExchange x]\<rparr>)))
       \<and> VLC_ENOOBJ \<noteq> VLC_SUCCESS"
  using VarsCommand_no_match [OF assms, of sscanf_p str p obj]
    VarsCommand_match [OF assms, of sscanf_p str x obj xp]
  by simp

text \<open>A reading of pointers that knows three texts.\<close>

definition ex_sscanf :: "string \<Rightarrow> pointer option" where
  "ex_sscanf str =
     (if str = ''0x2'' then Some (Some 2)
      else if str = ''0x3'' then Some (Some 3)
      else if str = ''(nil)'' then Some None
      else None)"

lemma ex_state_in_tree: "in_tree (ex_state 1 1) 1 2"
  by (rule in_tree_child [OF in_tree_root])
    (simp_all add: ex_state_def ex_child_def is_child_def)

lemma ex_state_not_in_tree: "\<not> in_tree (ex_state 1 1) 1 3"
  using in_tree_live [of "ex_state 1 1" 1 3] by (auto simp: ex_state_def)

theorem vars_command_result_witness:
  "\<not> tree_lock (ex_state 1 1)
   \<and> parents_first (heap (ex_state 1 1)) (tree_list (ex_state 1 1))
   \<and> length (tree_list (ex_state 1 1)) < 2
   \<and> ex_sscanf ''0x3'' = Some (Some 3) \<and> \<not> in_tree (ex_state 1 1) 1 3
   \<and> VarsCommand ex_sscanf 2 1 ''0x3'' (ex_state 1 1) =
       Some (Inr (VLC_ENOOBJ,
                  (ex_state 1 1)\<lparr>trace := [MutexLock, MutexUnlock,
                                             MsgErr 1 ''no such object: 0x3'']\<rparr>))
   \<and> ex_sscanf ''0x2'' = Some (Some 2) \<and> in_tree (ex_state 1 1) 1 2
   \<and> heap (ex_state 1 1) 2 = Some (ex_child 1 1) \<and> 0 < refs (ex_child 1 1)
   \<and> refs (ex_child 1 1) \<noteq> - 1
   \<and> VarsCommand ex_sscanf 2 1 ''0x2'' (ex_state 1 1) =
       Some (Inr (VLC_SUCCESS,
                  (ex_state 1 1)\<lparr>trace := [MutexLock, FetchAdd 2, MutexUnlock,
                                             PrintVarsHeader 2 (Some ''generic'') (Some 1),
                                             DumpVariables 2, CompareExchange 2]\<rparr>))"
  using vars_command_result [of "ex_state 1 1" 2 ex_sscanf "''0x3''" "Some 3" 1 2 "ex_child 1 1"]
    vars_command_result [of "ex_state 1 1" 2 ex_sscanf "''0x2''" "Some 2" 1 2 "ex_child 1 1"]
    ex_state_in_tree ex_state_not_in_tree
  by (simp add: ex_sscanf_def ex_state_def ex_child_def ex_root_def)


section \<open>Every child holds its parent\<close>

lemma is_child_parent: "is_child h q c \<longleftrightarrow> map_option parent (h c) = Some (Some q)"
  by (simp add: is_child_def split: option.splits)

lemma parents_first_cong:
  "(\<And>c. c \<in> set xs \<Longrightarrow> map_option parent (h' c) = map_option parent (h c)) \<Longrightarrow>
   parents_first h' xs = parents_first h xs"
proof (induction xs)
  case Nil
  show ?case by simp
next
  case (Cons y ys)
  have "map_option parent (h' y) = map_option parent (h y)" by (rule Cons.prems) simp
  moreover have "parents_first h' ys = parents_first h ys"
    by (rule Cons.IH) (simp add: Cons.prems)
  ultimately show ?case
    by (cases "h y"; cases "h' y") auto
qed

lemma parents_first_snoc:
  "parents_first h (xs @ [a]) \<longleftrightarrow>
     parents_first h xs \<and> (\<forall>c\<in>set xs. \<not> is_child h a c)
     \<and> (\<exists>ap. h a = Some ap \<and> parent ap \<noteq> Some a)"
  by (induction xs) (auto simp: is_child_def split: option.splits)

lemma parents_first_remove1:
  "parents_first h xs \<Longrightarrow> distinct xs \<Longrightarrow> parents_first (h(p := None)) (remove1 p xs)"
proof (induction xs)
  case Nil
  show ?case by simp
next
  case (Cons y ys)
  show ?case
  proof (cases "y = p")
    case True
    with Cons.prems(2) have "p \<notin> set ys" by simp
    then have "parents_first (h(p := None)) ys = parents_first h ys"
      by (intro parents_first_cong) auto
    moreover from Cons.prems(1) have "parents_first h ys" by simp
    moreover from True have "remove1 p (y # ys) = ys" by simp
    ultimately show ?thesis by (simp only:)
  next
    case False
    from Cons.prems have tail: "parents_first (h(p := None)) (remove1 p ys)"
      by (intro Cons.IH) simp_all
    have sub: "set (remove1 p ys) \<subseteq> set ys" by (rule set_remove1_subset)
    from False have live: "(h(p := None)) y = h y" by simp
    from Cons.prems(1) sub
    have head: "(case h y of
                   None \<Rightarrow> False
                 | Some cp \<Rightarrow>
                     (case parent cp of
                        None \<Rightarrow> True
                      | Some q \<Rightarrow> q \<notin> set (y # remove1 p ys)))"
      by (auto split: option.splits)
    from False have "remove1 p (y # ys) = y # remove1 p ys" by simp
    with head tail show ?thesis by (simp only: parents_first.simps live simp_thms)
  qed
qed

lemma release_creation_order:
  assumes "tree_inv s" and "parents_first (heap s) (tree_list s)" and "heap s p = Some priv"
    and "length (children_of s p) < unat (refs priv)"
  shows "\<exists>s'. vlc_object_release p s = Inr s' \<and> tree_inv s'
           \<and> parents_first (heap s') (tree_list s')"
proof (rule release_keeps [where Q = "\<lambda>_ s. parents_first (heap s) (tree_list s)"
      and P = "\<lambda>s. parents_first (heap s) (tree_list s)", OF _ _ _ assms])
  fix t :: state and x xp tr
  assume pf: "parents_first (heap t) (tree_list t)" and live: "heap t x = Some xp"
  have "parents_first ((heap t)(x \<mapsto> xp\<lparr>refs := refs xp - 1\<rparr>)) (tree_list t) =
      parents_first (heap t) (tree_list t)"
    by (rule parents_first_cong) (use live in auto)
  with pf show "parents_first
      (heap (t\<lparr>heap := (heap t)(x \<mapsto> xp\<lparr>refs := refs xp - 1\<rparr>), trace := tr\<rparr>))
      (tree_list (t\<lparr>heap := (heap t)(x \<mapsto> xp\<lparr>refs := refs xp - 1\<rparr>), trace := tr\<rparr>))"
    by simp
next
  fix t :: state and x tr
  assume inv: "tree_inv t" and pf: "parents_first (heap t) (tree_list t)"
  from parents_first_remove1 [OF pf tree_inv_distinct [OF inv], of x]
  show "parents_first
      (heap (t\<lparr>heap := (heap t)(x := None), tree_list := remove1 x (tree_list t), trace := tr\<rparr>))
      (tree_list (t\<lparr>heap := (heap t)(x := None), tree_list := remove1 x (tree_list t),
                     trace := tr\<rparr>))"
    by simp
next
  fix t :: state and x tr
  assume inv: "tree_inv t" and pf: "parents_first (heap t) (tree_list t)"
  from parents_first_remove1 [OF pf tree_inv_distinct [OF inv], of x]
  show "parents_first
      (heap (t\<lparr>heap := (heap t)(x := None), tree_list := remove1 x (tree_list t), trace := tr\<rparr>))
      (tree_list (t\<lparr>heap := (heap t)(x := None), tree_list := remove1 x (tree_list t),
                     trace := tr\<rparr>))"
    by simp
qed

lemma tree_inv_trace: "tree_inv (s\<lparr>trace := tr\<rparr>) = tree_inv s"
  by (simp add: tree_inv_def children_of_def)

lemma tree_inv_hold_each:
  assumes inv: "tree_inv s"
    and nomax: "\<And>c cp. c \<in> H \<Longrightarrow> heap s c = Some cp \<Longrightarrow> refs cp \<noteq> - 1"
  shows "tree_inv (s\<lparr>heap := (\<lambda>c. if c \<in> H then map_option inc_refs (heap s c) else heap s c),
                     trace := tr\<rparr>)" (is "tree_inv ?s'")
proof (rule tree_invI)
  have hp: "heap ?s' c = (if c \<in> H then map_option inc_refs (heap s c) else heap s c)" for c
    by simp
  have par': "map_option parent (heap ?s' c) = map_option parent (heap s c)" for c
    unfolding hp by (cases "heap s c") (simp_all add: inc_refs_def)
  have "filter (is_child (heap ?s') q) (tree_list s) = filter (is_child (heap s) q) (tree_list s)"
    for q
    by (rule filter_is_child_cong) (rule par')
  moreover have tl: "tree_list ?s' = tree_list s" by simp
  ultimately have kids: "children_of ?s' q = children_of s q" for q
    by (simp only: children_of_def)
  show "\<not> tree_lock ?s'" using tree_inv_lock [OF inv] by simp
  show "distinct (tree_list ?s')" using tree_inv_distinct [OF inv] by simp
  show "\<exists>cp q. heap ?s' c = Some cp \<and> parent cp = Some q" if "c \<in> set (tree_list ?s')" for c
  proof -
    from that tree_inv_entry [OF inv, of c] obtain cp q where
      "heap s c = Some cp" "parent cp = Some q" by auto
    then show ?thesis unfolding hp by (simp add: inc_refs_def)
  qed
  show "c \<in> set (tree_list ?s') \<and> heap ?s' q \<noteq> None"
    if "heap ?s' c = Some cp" "parent cp = Some q" for c cp q
  proof -
    from par' [of c] that obtain cp0 where c0: "heap s c = Some cp0" "parent cp0 = Some q"
      by (cases "heap s c") auto
    from tree_inv_child [OF inv c0] have "c \<in> set (tree_list s)" "heap s q \<noteq> None"
      by simp_all
    then show ?thesis unfolding hp tl by auto
  qed
  show "0 < refs qp \<and> resources qp = None \<and> length (children_of ?s' q) \<le> unat (refs qp)"
    if "heap ?s' q = Some qp" for q qp
  proof (cases "q \<in> H")
    case False
    with that have "heap s q = Some qp" by simp
    from tree_inv_count [OF inv this] show ?thesis unfolding kids .
  next
    case True
    with that obtain qp0 where q0: "heap s q = Some qp0" and qp: "qp = inc_refs qp0"
      by (cases "heap s q") auto
    from nomax [OF True q0] have nm: "refs qp0 \<noteq> - 1" .
    from tree_inv_count [OF inv q0] have "resources qp0 = None"
      and "length (children_of s q) \<le> unat (refs qp0)" by simp_all
    moreover have "0 < unat (refs qp0 + 1)" using nm by (simp add: unat_word_succ)
    then have "0 < refs qp0 + 1" by (simp add: word_less_nat_alt)
    ultimately show ?thesis
      unfolding kids qp using nm by (simp add: inc_refs_def unat_word_succ)
  qed
qed

lemma VarsCommand_no_pointer:
  assumes scan: "sscanf_p str = None" and live: "heap s obj = Some op"
    and pos: "0 < refs op" and nomax: "refs op \<noteq> - 1"
  shows "VarsCommand sscanf_p fuel obj str s =
           Some (Inr (VLC_SUCCESS,
                      s\<lparr>trace := trace s @ [FetchAdd obj,
                                            PrintVarsHeader obj (typename op) (parent op),
                                            DumpVariables obj, CompareExchange obj]\<rparr>))"
proof -
  let ?op' = "op\<lparr>refs := refs op + 1\<rparr>"
  let ?s1 = "s\<lparr>heap := (heap s)(obj \<mapsto> ?op'), trace := trace s @ [FetchAdd obj]\<rparr>"
  let ?s3 = "emit (DumpVariables obj) (emit (PrintVarsHeader obj (typename ?op') (parent ?op')) ?s1)"
  have hold: "vlc_object_hold obj s = Inr (obj, ?s1)"
    using pos by (simp add: vlc_object_hold_live [OF live])
  have live1: "heap ?s1 obj = Some ?op'" by simp
  have live3: "heap ?s3 obj = Some ?op'" by (simp add: emit_def)
  have "0 < unat (refs op)" using pos by (simp add: word_less_nat_alt)
  then have "1 < unat (refs op + 1)" using nomax by (simp add: unat_word_succ)
  then have above: "1 < refs ?op'" by (simp add: word_less_nat_alt)
  have rel: "vlc_object_release obj ?s3 =
      Inr (?s3\<lparr>heap := (heap ?s3)(obj \<mapsto> ?op'\<lparr>refs := refs ?op' - 1\<rparr>),
                trace := trace ?s3 @ [CompareExchange obj]\<rparr>)"
    by (rule vlc_object_release_fast [OF live3 above])
  have idem: "(heap s)(obj \<mapsto> op) = heap s" using live by (simp add: fun_upd_idem)
  have fin: "?s3\<lparr>heap := (heap ?s3)(obj \<mapsto> ?op'\<lparr>refs := refs ?op' - 1\<rparr>),
                 trace := trace ?s3 @ [CompareExchange obj]\<rparr> =
      s\<lparr>trace := trace s @ [FetchAdd obj, PrintVarsHeader obj (typename op) (parent op),
                            DumpVariables obj, CompareExchange obj]\<rparr>"
    using idem by (simp add: emit_def)
  have dump: "VarsCommand_dump obj ?s1 =
      Some (Inr (VLC_SUCCESS,
                 s\<lparr>trace := trace s @ [FetchAdd obj,
                                       PrintVarsHeader obj (typename op) (parent op),
                                       DumpVariables obj, CompareExchange obj]\<rparr>))"
    unfolding VarsCommand_dump_def live1
    by (simp only: option.case Let_def rel sum.case fin)
  show ?thesis
    unfolding VarsCommand_def scan hold
    by (simp only: option.case sum.case prod.case dump)
qed

lemma VarsCommand_only_trace:
  assumes inv: "tree_inv s" and pf: "parents_first (heap s) (tree_list s)"
    and fuel: "length (tree_list s) < fuel" and live: "heap s obj \<noteq> None"
    and nomax: "\<And>x xp. heap s x = Some xp \<Longrightarrow> refs xp \<noteq> - 1"
    and run: "VarsCommand sscanf_p fuel obj str s = Some (Inr (st, s'))"
  shows "\<exists>tr. s' = s\<lparr>trace := tr\<rparr>"
proof -
  have unlocked: "\<not> tree_lock s" by (rule tree_inv_lock [OF inv])
  show ?thesis
  proof (cases "sscanf_p str")
    case None
    from live obtain op where op: "heap s obj = Some op" by auto
    from tree_inv_count [OF inv op] have "0 < refs op" by simp
    from VarsCommand_no_pointer [where sscanf_p = sscanf_p and str = str and fuel = fuel,
        OF None op this nomax [OF op]] run
    show ?thesis by auto
  next
    case (Some p)
    show ?thesis
    proof (cases "\<exists>x. p = Some x \<and> in_tree s obj x")
      case False
      then have "p = None \<or> (\<exists>x. p = Some x \<and> \<not> in_tree s obj x)" by (cases p) auto
      from VarsCommand_no_match [where sscanf_p = sscanf_p and str = str,
          OF unlocked pf fuel Some this] run
      show ?thesis by auto
    next
      case True
      then obtain x where p: "p = Some x" and hit: "in_tree s obj x" by auto
      from in_tree_live [OF hit live] obtain xp where xp: "heap s x = Some xp" by auto
      from tree_inv_count [OF inv xp] have "0 < refs xp" by simp
      from VarsCommand_match [where sscanf_p = sscanf_p and str = str,
          OF unlocked pf fuel Some [unfolded p] hit xp this nomax [OF xp]] run
      show ?thesis by auto
    qed
  qed
qed

subsection \<open>Who owns the references\<close>

text \<open>
  The code counts references and does not record whose they are. The function
  \<open>own\<close> below is that record, kept beside the state: \<open>own q\<close> is the number of
  references on \<open>q\<close> that callers own, one from creating \<open>q\<close> and one from each hold
  of \<open>q\<close>, less those they released. A state is accounted for when the count of each
  live object is what callers own plus one reference for each of its children, no
  more and no less. Between the decrement of a release and its end the object
  released has one reference more than that: \<open>surplus own p\<close>.
\<close>

definition accounted :: "state \<Rightarrow> (addr \<Rightarrow> nat) \<Rightarrow> bool" where
  "accounted s own \<longleftrightarrow>
     (\<forall>q qp. heap s q = Some qp \<longrightarrow> unat (refs qp) = own q + length (children_of s q))"

definition surplus :: "(addr \<Rightarrow> nat) \<Rightarrow> addr \<Rightarrow> state \<Rightarrow> bool" where
  "surplus own p s \<longleftrightarrow>
     (\<forall>q qp. heap s q = Some qp \<longrightarrow>
        unat (refs qp) = own q + length (children_of s q) + (if q = p then 1 else 0))"

lemma accounted_count:
  "accounted s own \<Longrightarrow> heap s q = Some qp \<Longrightarrow>
   unat (refs qp) = own q + length (children_of s q)"
  by (simp add: accounted_def)

lemma surplus_count:
  "surplus own p s \<Longrightarrow> heap s q = Some qp \<Longrightarrow>
   unat (refs qp) = own q + length (children_of s q) + (if q = p then 1 else 0)"
  by (simp add: surplus_def)

lemma children_of_cong:
  assumes "tree_list s' = tree_list s"
    and "\<And>c. c \<in> set (tree_list s) \<Longrightarrow>
           map_option parent (heap s' c) = map_option parent (heap s c)"
  shows "children_of s' q = children_of s q"
  unfolding children_of_def assms(1) by (rule filter_is_child_cong) (rule assms(2))

lemma children_of_mem:
  "c \<in> set (children_of s q) \<longleftrightarrow> c \<in> set (tree_list s) \<and> is_child (heap s) q c"
  by (simp add: children_of_def)

lemma distinct_children_of: "distinct (tree_list s) \<Longrightarrow> distinct (children_of s q)"
  by (simp add: children_of_def)

lemma length_filter_neq:
  "distinct ks \<Longrightarrow>
   length (filter (\<lambda>x. x \<noteq> p) ks) + (if p \<in> set ks then 1 else 0) = length ks"
  by (induction ks) auto

lemma children_of_fresh:
  assumes "tree_inv s" and "heap s a = None"
  shows "children_of s a = []"
  using fresh_not_parent [OF assms] by (simp add: children_of_def filter_empty_conv)

lemma children_of_create_root:
  assumes inv: "tree_inv s" and fresh: "heap s a = None"
  shows "children_of (s\<lparr>heap := (heap s)(a \<mapsto> priv), trace := tr\<rparr>) q = children_of s q"
proof (rule children_of_cong)
  show "tree_list (s\<lparr>heap := (heap s)(a \<mapsto> priv), trace := tr\<rparr>) = tree_list s" by simp
  fix c assume "c \<in> set (tree_list s)"
  with fresh_not_listed [OF inv fresh] have "c \<noteq> a" by auto
  then show "map_option parent (heap (s\<lparr>heap := (heap s)(a \<mapsto> priv), trace := tr\<rparr>) c) =
      map_option parent (heap s c)" by simp
qed

lemma children_of_create_child:
  assumes inv: "tree_inv s" and fresh: "heap s a = None"
    and plive: "heap s p = Some ppriv" and par: "parent priv = Some p"
  shows "children_of (s\<lparr>heap := (heap s)(a \<mapsto> priv, p \<mapsto> ppriv\<lparr>refs := refs ppriv + 1\<rparr>),
                        tree_list := tree_list s @ [a], trace := tr\<rparr>) q =
         children_of s q @ (if q = p then [a] else [])"
proof -
  have nl: "a \<notin> set (tree_list s)" by (rule fresh_not_listed [OF inv fresh])
  have pa: "p \<noteq> a" using fresh plive by auto
  have same: "filter (is_child ((heap s)(a \<mapsto> priv, p \<mapsto> ppriv\<lparr>refs := refs ppriv + 1\<rparr>)) q)
        (tree_list s) =
      filter (is_child (heap s) q) (tree_list s)"
  proof (rule filter_is_child_cong)
    fix c assume "c \<in> set (tree_list s)"
    with nl have "c \<noteq> a" by auto
    with plive
    show "map_option parent (((heap s)(a \<mapsto> priv, p \<mapsto> ppriv\<lparr>refs := refs ppriv + 1\<rparr>)) c) =
        map_option parent (heap s c)" by simp
  qed
  show ?thesis using pa par by (simp add: children_of_def same is_child_def)
qed

text \<open>The decrement of a release gives the surplus reference back.\<close>

lemma surplus_dec:
  assumes sur: "surplus own p s" and live: "heap s p = Some priv" and above: "1 < refs priv"
  shows "accounted (s\<lparr>heap := (heap s)(p \<mapsto> priv\<lparr>refs := refs priv - 1\<rparr>), trace := tr\<rparr>) own"
    (is "accounted ?s' own")
  unfolding accounted_def
proof (intro allI impI)
  fix q qp assume q: "heap ?s' q = Some qp"
  have kids: "children_of ?s' x = children_of s x" for x
    by (rule children_of_cong) (use live in auto)
  show "unat (refs qp) = own q + length (children_of ?s' q)"
  proof (cases "q = p")
    case True
    with q have "qp = priv\<lparr>refs := refs priv - 1\<rparr>" by simp
    moreover from surplus_count [OF sur live]
    have "unat (refs priv) = own p + length (children_of s p) + 1" by simp
    ultimately show ?thesis using True above unfolding kids by (simp add: unat_word_pred)
  next
    case False
    with q have "heap s q = Some qp" by simp
    from surplus_count [OF sur this] False show ?thesis unfolding kids by simp
  qed
qed

text \<open>The freeing of a root, whose surplus reference was its last, leaves no surplus.\<close>

lemma surplus_free_root:
  assumes inv: "tree_inv s" and sur: "surplus own p s" and live: "heap s p = Some priv"
    and root: "parent priv = None"
  shows "accounted (s\<lparr>heap := (heap s)(p := None), tree_list := remove1 p (tree_list s),
                      trace := tr\<rparr>) own"
    (is "accounted ?s' own")
  unfolding accounted_def
proof (intro allI impI)
  fix q qp assume q: "heap ?s' q = Some qp"
  then have qq: "q \<noteq> p" "heap s q = Some qp" by (auto split: if_splits)
  have dist: "distinct (tree_list s)" by (rule tree_inv_distinct [OF inv])
  have "p \<notin> set (children_of s q)"
    using live root by (simp add: children_of_mem is_child_def)
  with length_filter_neq [OF distinct_children_of [OF dist], of p q]
  have "length (filter (\<lambda>x. x \<noteq> p) (children_of s q)) = length (children_of s q)"
    by simp
  moreover from surplus_count [OF sur qq(2)] qq(1)
  have "unat (refs qp) = own q + length (children_of s q)" by simp
  ultimately show "unat (refs qp) = own q + length (children_of ?s' q)"
    unfolding children_of_after_free [OF dist] by simp
qed

text \<open>
  The freeing of a child, whose surplus reference was its last, takes one child from
  its parent and nothing from the count of the parent: the surplus reference is now
  the one that the child held on its parent.
\<close>

lemma surplus_free_child:
  assumes inv: "tree_inv s" and sur: "surplus own p s" and live: "heap s p = Some priv"
    and par: "parent priv = Some q"
  shows "surplus own q (s\<lparr>heap := (heap s)(p := None), tree_list := remove1 p (tree_list s),
                          trace := tr\<rparr>)"
    (is "surplus own q ?s'")
  unfolding surplus_def
proof (intro allI impI)
  fix x xp assume x: "heap ?s' x = Some xp"
  then have xx: "x \<noteq> p" "heap s x = Some xp" by (auto split: if_splits)
  have dist: "distinct (tree_list s)" by (rule tree_inv_distinct [OF inv])
  have mem: "p \<in> set (children_of s x) \<longleftrightarrow> x = q"
    using tree_inv_child [OF inv live par] live par
    by (auto simp: children_of_mem is_child_def)
  from length_filter_neq [OF distinct_children_of [OF dist], of p x]
  have "length (filter (\<lambda>y. y \<noteq> p) (children_of s x)) + (if x = q then 1 else 0) =
      length (children_of s x)"
    unfolding mem .
  moreover from surplus_count [OF sur xx(2)] xx(1)
  have "unat (refs xp) = own x + length (children_of s x)" by simp
  ultimately show "unat (refs xp) =
      own x + length (children_of ?s' x) + (if x = q then 1 else 0)"
    unfolding children_of_after_free [OF dist] by simp
qed

text \<open>
  A release of a reference that a caller owns returns, and the state it returns is
  accounted for with one reference less owned on the object released.
\<close>

lemma release_accounted:
  assumes inv: "tree_inv s" and acc: "accounted s own" and live: "heap s p = Some priv"
    and mine: "0 < own p"
  shows "\<exists>s'. vlc_object_release p s = Inr s' \<and> tree_inv s'
           \<and> accounted s' (own(p := own p - 1))"
proof -
  let ?own = "own(p := own p - 1)"
  have sur: "surplus ?own p s"
    using acc mine by (auto simp: accounted_def surplus_def)
  from accounted_count [OF acc live] mine
  have spare: "length (children_of s p) < unat (refs priv)" by simp
  show ?thesis
  proof (rule release_keeps [where Q = "surplus ?own" and P = "\<lambda>s. accounted s ?own",
        OF _ _ _ inv sur live spare])
    fix t :: state and x xp tr
    assume "surplus ?own x t" and "heap t x = Some xp" and "1 < refs xp"
    then show "accounted (t\<lparr>heap := (heap t)(x \<mapsto> xp\<lparr>refs := refs xp - 1\<rparr>), trace := tr\<rparr>)
        ?own"
      by (rule surplus_dec)
  next
    fix t :: state and x xp tr
    assume "tree_inv t" and "surplus ?own x t" and "heap t x = Some xp"
      and "parent xp = None"
    then show "accounted (t\<lparr>heap := (heap t)(x := None),
        tree_list := remove1 x (tree_list t), trace := tr\<rparr>) ?own"
      by (rule surplus_free_root)
  next
    fix t :: state and x xp y tr
    assume "tree_inv t" and "surplus ?own x t" and "heap t x = Some xp"
      and "parent xp = Some y"
    then show "surplus ?own y (t\<lparr>heap := (heap t)(x := None),
        tree_list := remove1 x (tree_list t), trace := tr\<rparr>)"
      by (rule surplus_free_child)
  qed
qed

text \<open>The other calls: a hold or a creation adds one reference that the caller owns.\<close>

lemma accounted_hold:
  assumes acc: "accounted s own" and live: "heap s p = Some priv" and nomax: "refs priv \<noteq> - 1"
  shows "accounted (s\<lparr>heap := (heap s)(p \<mapsto> priv\<lparr>refs := refs priv + 1\<rparr>), trace := tr\<rparr>)
           (own(p := own p + 1))"
    (is "accounted ?s' ?own")
  unfolding accounted_def
proof (intro allI impI)
  fix q qp assume q: "heap ?s' q = Some qp"
  have kids: "children_of ?s' x = children_of s x" for x
    by (rule children_of_cong) (use live in auto)
  show "unat (refs qp) = ?own q + length (children_of ?s' q)"
  proof (cases "q = p")
    case True
    with q have "qp = priv\<lparr>refs := refs priv + 1\<rparr>" by simp
    with accounted_count [OF acc live] True nomax show ?thesis
      unfolding kids by (simp add: unat_word_succ)
  next
    case False
    with q have "heap s q = Some qp" by simp
    from accounted_count [OF acc this] False show ?thesis unfolding kids by simp
  qed
qed

lemma accounted_create_root:
  assumes inv: "tree_inv s" and acc: "accounted s own" and fresh: "heap s a = None"
    and one: "refs priv = 1"
  shows "accounted (s\<lparr>heap := (heap s)(a \<mapsto> priv), trace := tr\<rparr>) (own(a := 1))"
    (is "accounted ?s' ?own")
  unfolding accounted_def
proof (intro allI impI)
  fix q qp assume q: "heap ?s' q = Some qp"
  have kids: "children_of ?s' q = children_of s q"
    by (rule children_of_create_root [OF inv fresh])
  show "unat (refs qp) = ?own q + length (children_of ?s' q)"
  proof (cases "q = a")
    case True
    with q have "qp = priv" by simp
    with True one children_of_fresh [OF inv fresh] show ?thesis unfolding kids by simp
  next
    case False
    with q have "heap s q = Some qp" by simp
    from accounted_count [OF acc this] False show ?thesis unfolding kids by simp
  qed
qed

lemma accounted_create_child:
  assumes inv: "tree_inv s" and acc: "accounted s own" and fresh: "heap s a = None"
    and plive: "heap s p = Some ppriv" and nomax: "refs ppriv \<noteq> - 1"
    and new: "parent priv = Some p" "refs priv = 1"
  shows "accounted (s\<lparr>heap := (heap s)(a \<mapsto> priv, p \<mapsto> ppriv\<lparr>refs := refs ppriv + 1\<rparr>),
                      tree_list := tree_list s @ [a], trace := tr\<rparr>) (own(a := 1))"
    (is "accounted ?s' ?own")
  unfolding accounted_def
proof (intro allI impI)
  fix q qp assume q: "heap ?s' q = Some qp"
  have pa: "p \<noteq> a" using fresh plive by auto
  have kids: "children_of ?s' q = children_of s q @ (if q = p then [a] else [])"
    by (rule children_of_create_child [OF inv fresh plive new(1)])
  consider "q = a" | "q = p" | "q \<noteq> a" "q \<noteq> p" by blast
  then show "unat (refs qp) = ?own q + length (children_of ?s' q)"
  proof cases
    case 1
    with q pa have "qp = priv" by simp
    with 1 pa new(2) children_of_fresh [OF inv fresh] show ?thesis unfolding kids by simp
  next
    case 2
    with q have "qp = ppriv\<lparr>refs := refs ppriv + 1\<rparr>" by simp
    with accounted_count [OF acc plive] 2 pa nomax show ?thesis
      unfolding kids by (simp add: unat_word_succ)
  next
    case 3
    with q have "heap s q = Some qp" by simp
    from accounted_count [OF acc this] 3 show ?thesis unfolding kids by simp
  qed
qed

lemma accounted_set_destructor:
  assumes acc: "accounted s own" and live: "heap s p = Some priv"
  shows "accounted (s\<lparr>heap := (heap s)(p \<mapsto> priv\<lparr>pf_destructor := pf\<rparr>)\<rparr>) own"
    (is "accounted ?s' own")
  unfolding accounted_def
proof (intro allI impI)
  fix q qp assume q: "heap ?s' q = Some qp"
  have kids: "children_of ?s' x = children_of s x" for x
    by (rule children_of_cong) (use live in auto)
  show "unat (refs qp) = own q + length (children_of ?s' q)"
  proof (cases "q = p")
    case True
    with q have "qp = priv\<lparr>pf_destructor := pf\<rparr>" by simp
    with accounted_count [OF acc live] True show ?thesis unfolding kids by simp
  next
    case False
    with q have "heap s q = Some qp" by simp
    from accounted_count [OF acc this] show ?thesis unfolding kids by simp
  qed
qed

lemma accounted_hold_each:
  assumes acc: "accounted s own"
    and nomax: "\<And>c cp. c \<in> H \<Longrightarrow> heap s c = Some cp \<Longrightarrow> refs cp \<noteq> - 1"
  shows "accounted (s\<lparr>heap := (\<lambda>c. if c \<in> H then map_option inc_refs (heap s c) else heap s c),
                      trace := tr\<rparr>)
           (\<lambda>c. if c \<in> H then own c + 1 else own c)"
    (is "accounted ?s' ?own")
  unfolding accounted_def
proof (intro allI impI)
  fix q qp assume q: "heap ?s' q = Some qp"
  have hp: "heap ?s' c = (if c \<in> H then map_option inc_refs (heap s c) else heap s c)" for c
    by simp
  have par': "map_option parent (heap ?s' c) = map_option parent (heap s c)" for c
    unfolding hp by (cases "heap s c") (simp_all add: inc_refs_def)
  have kids: "children_of ?s' x = children_of s x" for x
    by (rule children_of_cong) (simp, rule par')
  show "unat (refs qp) = ?own q + length (children_of ?s' q)"
  proof (cases "q \<in> H")
    case False
    with q have "heap s q = Some qp" by simp
    from accounted_count [OF acc this] False show ?thesis unfolding kids by simp
  next
    case True
    with q obtain qp0 where q0: "heap s q = Some qp0" and qp: "qp = inc_refs qp0"
      by (cases "heap s q") auto
    from accounted_count [OF acc q0] nomax [OF True q0] True show ?thesis
      unfolding kids qp by (simp add: inc_refs_def unat_word_succ)
  qed
qed

lemma accounted_trace: "accounted (s\<lparr>trace := tr\<rparr>) own = accounted s own"
  by (simp add: accounted_def children_of_def)

subsection \<open>The states a program reaches\<close>

text \<open>
  The states a program reaches from the empty one by the calls of the file that
  change the state, each with the references that callers own in it: creating an
  object at a fresh address, which gives its creator one reference; holding, which
  gives the caller one more; releasing a reference that a caller owns; setting a
  teardown hook; listing children, which gives the caller one reference on each
  child listed; and running the \<^verbatim>\<open>vars\<close> command on a live object. A count at its
  32-bit maximum is not held again.
\<close>

inductive reachable :: "state \<Rightarrow> (addr \<Rightarrow> nat) \<Rightarrow> bool" where
  reach_init: "reachable initial_state (\<lambda>_. 0)"
| reach_create_root:
    "reachable s own \<Longrightarrow> heap s a = None \<Longrightarrow> malloc (hsz + len) = Some (a, junk) \<Longrightarrow>
     vlc_custom_create sz hsz malloc None len tname s = Inr (Some a, s') \<Longrightarrow>
     reachable s' (own(a := 1))"
| reach_create_child:
    "reachable s own \<Longrightarrow> heap s a = None \<Longrightarrow> malloc (hsz + len) = Some (a, junk) \<Longrightarrow>
     heap s p = Some ppriv \<Longrightarrow> refs ppriv \<noteq> - 1 \<Longrightarrow>
     vlc_custom_create sz hsz malloc (Some p) len tname s = Inr (Some a, s') \<Longrightarrow>
     reachable s' (own(a := 1))"
| reach_hold:
    "reachable s own \<Longrightarrow> heap s p = Some priv \<Longrightarrow> refs priv \<noteq> - 1 \<Longrightarrow>
     vlc_object_hold p s = Inr (p, s') \<Longrightarrow>
     reachable s' (own(p := own p + 1))"
| reach_release:
    "reachable s own \<Longrightarrow> heap s p = Some priv \<Longrightarrow> 0 < own p \<Longrightarrow>
     vlc_object_release p s = Inr s' \<Longrightarrow>
     reachable s' (own(p := own p - 1))"
| reach_set_destructor:
    "reachable s own \<Longrightarrow> vlc_object_set_destructor p pf s = Inr s' \<Longrightarrow> reachable s' own"
| reach_list_children:
    "reachable s own \<Longrightarrow> mx \<le> length tab \<Longrightarrow>
     \<forall>c\<in>set (take mx (children_of s obj)). \<forall>cp. heap s c = Some cp \<longrightarrow> refs cp \<noteq> - 1 \<Longrightarrow>
     vlc_list_children obj tab mx s = Inr (n, tab', s') \<Longrightarrow>
     reachable s' (\<lambda>c. if c \<in> set (take mx (children_of s obj)) then own c + 1 else own c)"
| reach_vars_command:
    "reachable s own \<Longrightarrow> heap s obj \<noteq> None \<Longrightarrow> length (tree_list s) < fuel \<Longrightarrow>
     \<forall>x xp. heap s x = Some xp \<longrightarrow> refs xp \<noteq> - 1 \<Longrightarrow>
     VarsCommand sscanf_p fuel obj str s = Some (Inr (st, s')) \<Longrightarrow>
     reachable s' own"

lemma tree_inv_initial: "tree_inv initial_state"
  by (simp add: tree_inv_def initial_state_def children_of_def)

lemma accounted_initial: "accounted initial_state (\<lambda>_. 0)"
  by (simp add: accounted_def initial_state_def)

lemma vlc_custom_create_returns:
  assumes run: "vlc_custom_create sz hsz malloc par len tname s = Inr (r, s')"
    and mal: "malloc (hsz + len) = Some (a, junk)"
  shows "sz \<le> len \<and> unat hsz + unat len < 2 ^ 64"
proof -
  have le: "sz \<le> len"
    by (rule ccontr) (use run in \<open>simp add: vlc_custom_create_def\<close>)
  have "unat hsz + unat len < 2 ^ 64"
  proof (rule ccontr)
    assume "\<not> unat hsz + unat len < 2 ^ 64"
    then have "2 ^ 64 \<le> unat hsz + unat len" by simp
    from vlc_custom_create_overrun [where malloc = malloc and hsz = hsz and len = len
        and par = par and tname = tname and s = s, OF le this mal]
      run
    show False by simp
  qed
  with le show ?thesis by simp
qed

lemma reachable_inv:
  "reachable s own \<Longrightarrow>
   tree_inv s \<and> parents_first (heap s) (tree_list s) \<and> accounted s own"
proof (induction rule: reachable.induct)
  case reach_init
  show ?case
    by (simp add: tree_inv_initial accounted_initial) (simp add: initial_state_def)
next
  case (reach_create_root s own a malloc hsz len junk sz tname s')
  from reach_create_root.IH have inv: "tree_inv s"
    and pf: "parents_first (heap s) (tree_list s)" and acc: "accounted s own" by simp_all
  note fresh = reach_create_root.hyps(2) and mal = reach_create_root.hyps(3)
  from vlc_custom_create_returns [OF reach_create_root.hyps(4) mal]
  have le: "sz \<le> len" and fits: "unat hsz + unat len < 2 ^ 64" by simp_all
  from reach_create_root.hyps(4) obtain priv tr where
    s': "s' = s\<lparr>heap := (heap s)(a \<mapsto> priv), trace := tr\<rparr>"
    and new: "parent priv = None" "refs priv = 1" "resources priv = None"
    unfolding vlc_custom_create_root [where malloc = malloc and hsz = hsz and len = len,
        OF le fits mal]
    by auto
  have nl: "a \<notin> set (tree_list s)" by (rule fresh_not_listed [OF inv fresh])
  have "parents_first ((heap s)(a \<mapsto> priv)) (tree_list s) = parents_first (heap s) (tree_list s)"
    by (rule parents_first_cong) (use nl in auto)
  with pf have "parents_first (heap s') (tree_list s')" by (simp add: s')
  moreover have "tree_inv s'" unfolding s' by (rule tree_inv_create_root [OF inv fresh new])
  moreover have "accounted s' (own(a := 1))"
    unfolding s' by (rule accounted_create_root [OF inv acc fresh new(2)])
  ultimately show ?case by blast
next
  case (reach_create_child s own a malloc hsz len junk p ppriv sz tname s')
  from reach_create_child.IH have inv: "tree_inv s"
    and pf: "parents_first (heap s) (tree_list s)" and acc: "accounted s own" by simp_all
  note fresh = reach_create_child.hyps(2) and mal = reach_create_child.hyps(3)
    and plive = reach_create_child.hyps(4) and nomax = reach_create_child.hyps(5)
  from vlc_custom_create_returns [OF reach_create_child.hyps(6) mal]
  have le: "sz \<le> len" and fits: "unat hsz + unat len < 2 ^ 64" by simp_all
  have pa: "p \<noteq> a" using fresh plive by auto
  from tree_inv_count [OF inv plive] have pos: "0 < refs ppriv" by simp
  have nl: "a \<notin> set (tree_list s)" by (rule fresh_not_listed [OF inv fresh])
  from reach_create_child.hyps(6) obtain priv tr where
    s': "s' = s\<lparr>heap := (heap s)(a \<mapsto> priv, p \<mapsto> ppriv\<lparr>refs := refs ppriv + 1\<rparr>),
                 tree_list := tree_list s @ [a], trace := tr\<rparr>"
    and new: "parent priv = Some p" "refs priv = 1" "resources priv = None"
    unfolding vlc_custom_create_child [where malloc = malloc and hsz = hsz and len = len,
        OF le fits mal plive pa pos tree_inv_lock [OF inv]]
    by auto
  let ?h = "(heap s)(a \<mapsto> priv, p \<mapsto> ppriv\<lparr>refs := refs ppriv + 1\<rparr>)"
  have same: "map_option parent (?h c) = map_option parent (heap s c)"
    if "c \<in> set (tree_list s)" for c
    using that nl plive by auto
  have "parents_first ?h (tree_list s) = parents_first (heap s) (tree_list s)"
    by (rule parents_first_cong) (rule same)
  moreover have "\<not> is_child ?h a c" if "c \<in> set (tree_list s)" for c
  proof -
    have "is_child ?h a c = is_child (heap s) a c"
      by (simp only: is_child_parent same [OF that])
    with fresh_not_parent [OF inv fresh that] show ?thesis by simp
  qed
  ultimately have "parents_first ?h (tree_list s @ [a])"
    using new(1) pa pf by (simp add: parents_first_snoc)
  then have "parents_first (heap s') (tree_list s')" by (simp add: s')
  moreover have "tree_inv s'"
    unfolding s' by (rule tree_inv_create_child [OF inv fresh plive nomax new])
  moreover have "accounted s' (own(a := 1))"
    unfolding s' by (rule accounted_create_child [OF inv acc fresh plive nomax new(1,2)])
  ultimately show ?case by blast
next
  case (reach_hold s own p priv s')
  from reach_hold.IH have inv: "tree_inv s"
    and pf: "parents_first (heap s) (tree_list s)" and acc: "accounted s own" by simp_all
  note live = reach_hold.hyps(2) and nomax = reach_hold.hyps(3)
  from tree_inv_count [OF inv live] have pos: "0 < refs priv" by simp
  from reach_hold.hyps(4) pos have
    s': "s' = s\<lparr>heap := (heap s)(p \<mapsto> priv\<lparr>refs := refs priv + 1\<rparr>),
                 trace := trace s @ [FetchAdd p]\<rparr>"
    unfolding vlc_object_hold_live [OF live] by auto
  have "parents_first ((heap s)(p \<mapsto> priv\<lparr>refs := refs priv + 1\<rparr>)) (tree_list s) =
      parents_first (heap s) (tree_list s)"
    by (rule parents_first_cong) (use live in auto)
  with pf have "parents_first (heap s') (tree_list s')" by (simp add: s')
  moreover from tree_inv_hold [OF inv live nomax] reach_hold.hyps(4)
  have "tree_inv s'" by auto
  moreover have "accounted s' (own(p := own p + 1))"
    unfolding s' by (rule accounted_hold [OF acc live nomax])
  ultimately show ?case by blast
next
  case (reach_release s own p priv s')
  from reach_release.IH have inv: "tree_inv s"
    and pf: "parents_first (heap s) (tree_list s)" and acc: "accounted s own" by simp_all
  note live = reach_release.hyps(2) and mine = reach_release.hyps(3)
  from accounted_count [OF acc live] mine
  have spare: "length (children_of s p) < unat (refs priv)" by simp
  from release_creation_order [OF inv pf live spare] reach_release.hyps(4)
  have "tree_inv s'" and "parents_first (heap s') (tree_list s')" by auto
  moreover from release_accounted [OF inv acc live mine] reach_release.hyps(4)
  have "accounted s' (own(p := own p - 1))" by auto
  ultimately show ?case by blast
next
  case (reach_set_destructor s own p pf s')
  from reach_set_destructor.IH have inv: "tree_inv s"
    and ord: "parents_first (heap s) (tree_list s)" and acc: "accounted s own" by simp_all
  from reach_set_destructor.hyps(2) obtain priv where live: "heap s p = Some priv"
    and s': "s' = s\<lparr>heap := (heap s)(p \<mapsto> priv\<lparr>pf_destructor := pf\<rparr>)\<rparr>"
    by (auto simp: vlc_object_set_destructor_def split: option.splits)
  have "parents_first ((heap s)(p \<mapsto> priv\<lparr>pf_destructor := pf\<rparr>)) (tree_list s) =
      parents_first (heap s) (tree_list s)"
    by (rule parents_first_cong) (use live in auto)
  with ord have "parents_first (heap s') (tree_list s')" by (simp add: s')
  moreover have "tree_inv s'"
    by (rule tree_inv_set_destructor [OF inv reach_set_destructor.hyps(2)])
  moreover have "accounted s' own"
    unfolding s' by (rule accounted_set_destructor [OF acc live])
  ultimately show ?case by blast
next
  case (reach_list_children s own mx tab obj n tab' s')
  from reach_list_children.IH have inv: "tree_inv s"
    and pf: "parents_first (heap s) (tree_list s)" and acc: "accounted s own" by simp_all
  let ?H = "set (take mx (children_of s obj))"
  have live: "\<forall>c\<in>set (tree_list s). \<exists>cp. heap s c = Some cp \<and> 0 < refs cp"
  proof
    fix c assume "c \<in> set (tree_list s)"
    from tree_inv_entry [OF inv this] obtain cp where cp: "heap s c = Some cp" by auto
    with tree_inv_count [OF inv cp] show "\<exists>cp. heap s c = Some cp \<and> 0 < refs cp" by simp
  qed
  from reach_list_children.hyps(4) obtain tr where
    s': "s' = s\<lparr>heap := (\<lambda>c. if c \<in> ?H then map_option inc_refs (heap s c) else heap s c),
                 trace := tr\<rparr>"
    unfolding vlc_list_children_run [OF tree_inv_lock [OF inv] live reach_list_children.hyps(2)
        tree_inv_distinct [OF inv]]
    by auto
  have nomax: "refs cp \<noteq> - 1" if "c \<in> ?H" "heap s c = Some cp" for c cp
    using reach_list_children.hyps(3) that by blast
  have "tree_inv s'"
    unfolding s' by (rule tree_inv_hold_each [OF inv]) (rule nomax)
  moreover have "parents_first (heap s') (tree_list s') = parents_first (heap s) (tree_list s)"
    unfolding s' by (simp, rule parents_first_cong) (simp add: inc_refs_def option.map_comp o_def
      cong: option.map_cong)
  moreover have "accounted s' (\<lambda>c. if c \<in> ?H then own c + 1 else own c)"
    unfolding s' by (rule accounted_hold_each [OF acc]) (rule nomax)
  ultimately show ?case using pf by blast
next
  case (reach_vars_command s own obj fuel sscanf_p str st s')
  from reach_vars_command.IH have inv: "tree_inv s"
    and pf: "parents_first (heap s) (tree_list s)" and acc: "accounted s own" by simp_all
  have "\<exists>tr. s' = s\<lparr>trace := tr\<rparr>"
  proof (rule VarsCommand_only_trace [OF inv pf])
    show "length (tree_list s) < fuel" by fact
    show "heap s obj \<noteq> None" by fact
    show "VarsCommand sscanf_p fuel obj str s = Some (Inr (st, s'))" by fact
    fix x xp assume "heap s x = Some xp"
    with reach_vars_command.hyps(4) show "refs xp \<noteq> - 1" by blast
  qed
  then obtain tr where "s' = s\<lparr>trace := tr\<rparr>" by auto
  with inv pf acc show ?case by (simp add: tree_inv_trace accounted_trace)
qed


lemma reachable_creation_order: "reachable s own \<Longrightarrow> parents_first (heap s) (tree_list s)"
  by (simp add: reachable_inv)









end
